theory Spec2Isabelle
  imports Complex_Main
begin

section \<open>The ingestion pipeline of k\_tree\_example.cpp\<close>

text \<open>
  The program reads a text file of vectors into one \<open>std::string\<close>, cuts it into lines in
  place, parses every line into a vector of floats and hands the vectors to the k-tree.
  The embedding follows the source function by function.  A pointer into the buffer is
  the index of the byte it points to.
\<close>

subsection \<open>Bytes and the buffer\<close>

text \<open>
  A \<open>std::string\<close> of size \<open>n\<close> owns the bytes \<open>0..n-1\<close> and a terminating zero byte at
  index \<open>n\<close> (C++11: \<open>buffer[size()]\<close> is \<open>'\0'\<close>).  \<open>byte_at\<close> reads through the pointer
  \<open>&buffer[0] + pos\<close>.  Every loop below stops at a zero byte, so none moves past index
  \<open>n\<close>; \<open>skip_eol_le\<close>, \<open>skip_space_le\<close> and \<open>skip_token_le\<close> say so for the inner loops.
\<close>

definition NUL :: char where
  "NUL = CHR 0x00"

definition byte_at :: "string \<Rightarrow> nat \<Rightarrow> char" where
  "byte_at buffer pos = (if pos < length buffer then buffer ! pos else NUL)"

text \<open>The test \<open>*pos == '\n' || *pos == '\r'\<close>.\<close>

definition is_eol :: "char \<Rightarrow> bool" where
  "is_eol c = (c = CHR 0x0A \<or> c = CHR 0x0D)"

text \<open>The "C" string a pointer denotes: the bytes from \<open>pos\<close> up to the first zero byte.\<close>

definition c_str :: "string \<Rightarrow> nat \<Rightarrow> string" where
  "c_str buffer pos = takeWhile (\<lambda>c. c \<noteq> NUL) (drop pos buffer)"

subsection \<open>std::vector of line pointers\<close>

text \<open>
  The vector of \<open>uint8_t *\<close> with its capacity.  \<open>push_back\<close> into a full vector
  reallocates (the new capacity doubles, or becomes 1, as in libstdc++);
  \<open>reallocations\<close> counts how often that happened.
\<close>

record line_vector =
  items :: "nat list"
  capacity :: nat
  reallocations :: nat

definition empty_vector :: line_vector where
  "empty_vector = \<lparr>items = [], capacity = 0, reallocations = 0\<rparr>"

definition clear :: "line_vector \<Rightarrow> line_vector" where
  "clear v = v\<lparr>items := []\<rparr>"

definition reserve :: "nat \<Rightarrow> line_vector \<Rightarrow> line_vector" where
  "reserve n v = (if capacity v < n then v\<lparr>capacity := n\<rparr> else v)"

definition push_back :: "nat \<Rightarrow> line_vector \<Rightarrow> line_vector" where
  "push_back p v =
     (if length (items v) < capacity v then v\<lparr>items := items v @ [p]\<rparr>
      else v\<lparr>items := items v @ [p],
             capacity := max 1 (2 * capacity v),
             reallocations := reallocations v + 1\<rparr>)"

subsection \<open>buffer\_to\_list\<close>

text \<open>The inner loop \<open>while (*pos == '\n' || *pos == '\r') pos++;\<close>.\<close>

function skip_eol :: "string \<Rightarrow> nat \<Rightarrow> nat" where
  "skip_eol buffer pos =
     (if is_eol (byte_at buffer pos) then skip_eol buffer (pos + 1) else pos)"
  by pat_completeness auto
termination
  by (relation "measure (\<lambda>(buffer, pos). length buffer - pos)")
     (auto simp: byte_at_def is_eol_def NUL_def split: if_splits)

declare skip_eol.simps [simp del]

text \<open>
  First pass (lines 74 to 88): walk the buffer to its zero byte, counting one line for
  every run of line terminators.
\<close>

function count_lines :: "string \<Rightarrow> nat \<Rightarrow> nat \<Rightarrow> nat" where
  "count_lines buffer pos line_count =
     (if byte_at buffer pos \<noteq> NUL then
        (if is_eol (byte_at buffer pos)
         then count_lines buffer (skip_eol buffer pos) (line_count + 1)
         else count_lines buffer (pos + 1) line_count)
      else line_count)"
  by pat_completeness auto
termination
proof (relation "measure (\<lambda>(buffer, pos, line_count). length buffer - pos)")
  show "wf (measure (\<lambda>(buffer, pos, line_count). length buffer - pos))"
    by simp
next
  fix buffer :: string and pos line_count :: nat
  assume nz: "byte_at buffer pos \<noteq> NUL" and eol: "is_eol (byte_at buffer pos)"
  have bound: "p \<le> length buffer \<Longrightarrow> skip_eol buffer p \<le> length buffer" for p
    by (induction buffer p rule: skip_eol.induct)
       (subst skip_eol.simps, auto simp: byte_at_def is_eol_def NUL_def split: if_splits)
  have mono: "p \<le> skip_eol buffer p" for p
    by (induction buffer p rule: skip_eol.induct) (subst skip_eol.simps, auto)
  from nz have lt: "pos < length buffer"
    by (auto simp: byte_at_def split: if_splits)
  from eol have "skip_eol buffer pos = skip_eol buffer (pos + 1)"
    by (subst skip_eol.simps) simp
  with mono [of "pos + 1"] bound [of pos] lt
  show "((buffer, skip_eol buffer pos, line_count + 1), (buffer, pos, line_count))
          \<in> measure (\<lambda>(buffer, pos, line_count). length buffer - pos)"
    by simp
next
  fix buffer :: string and pos line_count :: nat
  assume "byte_at buffer pos \<noteq> NUL"
  then show "((buffer, pos + 1, line_count), (buffer, pos, line_count))
               \<in> measure (\<lambda>(buffer, pos, line_count). length buffer - pos)"
    by (auto simp: byte_at_def split: if_splits)
qed

declare count_lines.simps [simp del]

text \<open>
  Second pass (lines 102 to 117).  At a terminator the byte is overwritten with zero
  (\<open>*pos++ = '\0'\<close>), the rest of the run is skipped, and the next position is pushed
  unless it holds the zero byte.
\<close>

function split_lines :: "string \<Rightarrow> nat \<Rightarrow> line_vector \<Rightarrow> string \<times> line_vector" where
  "split_lines buffer pos line_list =
     (if byte_at buffer pos \<noteq> NUL then
        (if is_eol (byte_at buffer pos) then
           (let buffer' = buffer[pos := NUL];
                pos' = skip_eol buffer' (pos + 1);
                line_list' = (if byte_at buffer' pos' \<noteq> NUL
                              then push_back pos' line_list else line_list)
            in split_lines buffer' pos' line_list')
         else split_lines buffer (pos + 1) line_list)
      else (buffer, line_list))"
  by pat_completeness auto
termination
proof (relation "measure (\<lambda>(buffer, pos, line_list). length buffer - pos)")
  show "wf (measure (\<lambda>(buffer, pos, line_list). length buffer - pos))"
    by simp
next
  fix buffer :: string and pos :: nat and line_list :: line_vector
    and buffer' :: string and pos' :: nat and line_list' :: line_vector
  assume nz: "byte_at buffer pos \<noteq> NUL"
    and b: "buffer' = buffer[pos := NUL]"
    and p: "pos' = skip_eol buffer' (pos + 1)"
  have bound: "q \<le> length buffer' \<Longrightarrow> skip_eol buffer' q \<le> length buffer'" for q
    by (induction buffer' q rule: skip_eol.induct)
       (subst skip_eol.simps, auto simp: byte_at_def is_eol_def NUL_def split: if_splits)
  have mono: "q \<le> skip_eol buffer' q" for q
    by (induction buffer' q rule: skip_eol.induct) (subst skip_eol.simps, auto)
  from nz have lt: "pos < length buffer"
    by (auto simp: byte_at_def split: if_splits)
  with mono [of "pos + 1"] bound [of "pos + 1"] b p
  show "((buffer', pos', line_list'), (buffer, pos, line_list))
          \<in> measure (\<lambda>(buffer, pos, line_list). length buffer - pos)"
    by simp
next
  fix buffer :: string and pos :: nat and line_list :: line_vector
  assume "byte_at buffer pos \<noteq> NUL"
  then show "((buffer, pos + 1, line_list), (buffer, pos, line_list))
               \<in> measure (\<lambda>(buffer, pos, line_list). length buffer - pos)"
    by (auto simp: byte_at_def split: if_splits)
qed

declare split_lines.simps [simp del]

text \<open>
  The whole function.  It returns the buffer as mutated and the vector; \<open>line_count\<close> is
  the value of the local variable after the first pass.
\<close>

definition line_count_of :: "string \<Rightarrow> nat" where
  "line_count_of buffer = count_lines buffer 0 0"

definition buffer_to_list :: "line_vector \<Rightarrow> string \<Rightarrow> string \<times> line_vector" where
  "buffer_to_list line_list buffer =
     (let line_count = line_count_of buffer;
          line_list1 = reserve line_count (clear line_list);
          line_list2 = (if \<not> is_eol (byte_at buffer 0) \<and> byte_at buffer 0 \<noteq> NUL
                        then push_back 0 line_list1 else line_list1)
      in split_lines buffer 0 line_list2)"

text \<open>The lines a caller sees: the "C" strings the stored pointers denote in the mutated buffer.\<close>

definition lines_of :: "string \<times> line_vector \<Rightarrow> string list" where
  "lines_of r = map (c_str (fst r)) (items (snd r))"

subsection \<open>read\_entire\_file\<close>

text \<open>
  What the calls of \<open>read_entire_file\<close> can observe of a path: \<open>fopen\<close> fails
  (\<open>None\<close>), or it yields a handle for which \<open>fstat\<close> succeeds or not, reports
  \<open>st_size\<close>, and from which \<open>fread\<close> can deliver the bytes \<open>readable\<close>.  The size
  reported and the bytes delivered are independent: a directory, or a file cut short
  after \<open>fstat\<close>, reports a size that \<open>fread\<close> does not deliver.
\<close>

record input_file =
  fstat_ok :: bool
  st_size :: nat
  readable :: string

text \<open>
  \<open>fread(&into[0], n, 1, fp)\<close> reads one item of \<open>n\<close> bytes; it returns 1 exactly when
  all \<open>n\<close> bytes arrived.
\<close>

definition fread_item :: "input_file \<Rightarrow> nat \<Rightarrow> string option" where
  "fread_item fp n = (if n \<le> length (readable fp) then Some (take n (readable fp)) else None)"

text \<open>The function returns \<open>file_length\<close>; the second component is \<open>into\<close> on return.\<close>

definition read_entire_file :: "(string \<Rightarrow> input_file option) \<Rightarrow> string \<Rightarrow> string \<Rightarrow> nat \<times> string" where
  "read_entire_file fs filename into =
     (case fs filename of
        None \<Rightarrow> (0, into)
      | Some fp \<Rightarrow>
          (if fstat_ok fp then
             (if st_size fp \<noteq> 0 then
                (case fread_item fp (st_size fp) of
                   Some bytes \<Rightarrow> (st_size fp, bytes)
                 | None \<Rightarrow> (st_size fp, []))
              else (0, into))
           else (0, into)))"

subsection \<open>Tokens of a line\<close>

text \<open>
  \<open>isspace\<close> in the "C" locale (the program never sets another): space, and the control
  characters tab, line feed, vertical tab, form feed and carriage return.
\<close>

definition isspace :: "char \<Rightarrow> bool" where
  "isspace c = (c = CHR 0x20 \<or> c = CHR 0x09 \<or> c = CHR 0x0A \<or> c = CHR 0x0B \<or>
                c = CHR 0x0C \<or> c = CHR 0x0D)"

text \<open>\<open>while (isspace(*pos)) pos++;\<close>\<close>

function skip_space :: "string \<Rightarrow> nat \<Rightarrow> nat" where
  "skip_space buffer pos =
     (if isspace (byte_at buffer pos) then skip_space buffer (pos + 1) else pos)"
  by pat_completeness auto
termination
  by (relation "measure (\<lambda>(buffer, pos). length buffer - pos)")
     (auto simp: byte_at_def isspace_def NUL_def split: if_splits)

declare skip_space.simps [simp del]

text \<open>\<open>while (*pos != '\0' && !isspace(*pos)) pos++;\<close>\<close>

function skip_token :: "string \<Rightarrow> nat \<Rightarrow> nat" where
  "skip_token buffer pos =
     (if byte_at buffer pos \<noteq> NUL \<and> \<not> isspace (byte_at buffer pos)
      then skip_token buffer (pos + 1) else pos)"
  by pat_completeness auto
termination
  by (relation "measure (\<lambda>(buffer, pos). length buffer - pos)")
     (auto simp: byte_at_def split: if_splits)

declare skip_token.simps [simp del]

text \<open>
  The do-while loop of lines 155 to 165, which counts the tokens of the first line.
  The body runs before the condition \<open>*pos != '\0'\<close> is tested.
\<close>

function count_dimensions :: "string \<Rightarrow> nat \<Rightarrow> nat \<Rightarrow> nat" where
  "count_dimensions buffer pos dimensions =
     (let pos1 = skip_space buffer pos in
      if byte_at buffer pos1 = NUL then dimensions
      else
        (let pos2 = skip_token buffer pos1 in
         if byte_at buffer pos2 \<noteq> NUL
         then count_dimensions buffer pos2 (dimensions + 1)
         else dimensions + 1))"
  by pat_completeness auto
termination
proof (relation "measure (\<lambda>(buffer, pos, dimensions). length buffer - pos)")
  show "wf (measure (\<lambda>(buffer, pos, dimensions). length buffer - pos))"
    by simp
next
  fix buffer :: string and pos dimensions pos1 pos2 :: nat
  assume p1: "pos1 = skip_space buffer pos"
    and nz1: "byte_at buffer pos1 \<noteq> NUL"
    and p2: "pos2 = skip_token buffer pos1"
    and nz2: "byte_at buffer pos2 \<noteq> NUL"
  have "p \<le> skip_space buffer p" for p
    by (induction buffer p rule: skip_space.induct) (subst skip_space.simps, auto)
  then have a: "pos \<le> pos1"
    by (simp add: p1)
  have "p \<le> skip_token buffer p" for p
    by (induction buffer p rule: skip_token.induct) (subst skip_token.simps, auto)
  then have "pos1 + 1 \<le> skip_token buffer (pos1 + 1)" .
  moreover have "\<not> isspace (byte_at buffer (skip_space buffer p))" for p
    by (induction buffer p rule: skip_space.induct) (subst skip_space.simps, auto)
  then have "\<not> isspace (byte_at buffer pos1)"
    by (simp add: p1)
  with nz1 have "skip_token buffer pos1 = skip_token buffer (pos1 + 1)"
    by (subst skip_token.simps) simp
  ultimately have b: "pos1 < pos2"
    by (simp add: p2)
  from nz2 have "pos2 < length buffer"
    by (auto simp: byte_at_def split: if_splits)
  with a b
  show "((buffer, pos2, dimensions + 1), (buffer, pos, dimensions))
          \<in> measure (\<lambda>(buffer, pos, dimensions). length buffer - pos)"
    by simp
qed

declare count_dimensions.simps [simp del]

subsection \<open>atof and atoi\<close>

text \<open>
  The C library's conversions.  \<open>atof\<close> skips white space, takes an optional sign and
  then the longest text that is a number: decimal digits with an optional fraction and
  an optional exponent of ten, or, after \<open>0x\<close>, hexadecimal digits with an optional
  fraction and an optional exponent of two.  Conversion stops at the first byte that
  does not fit, and no digits at all give 0; \<open>0x\<close> with no hexadecimal digit after it is
  the decimal \<open>0\<close> followed by text that does not fit.  \<open>atof\<close> yields the exact value of
  the text as a real; how that value rounds to a \<open>float\<close> is the parameter \<open>fl\<close> of the
  parser.  An infinity or a NaN (\<open>inf\<close>, \<open>nan\<close>, in either case of letters) is no real:
  \<open>atof\<close> is \<open>None\<close> on these two, and only on them.  Signed zero is not told apart.
\<close>

definition is_digit :: "char \<Rightarrow> bool" where
  "is_digit c = (48 \<le> (of_char c :: nat) \<and> (of_char c :: nat) \<le> 57)"

definition digit_value :: "char \<Rightarrow> nat" where
  "digit_value c = of_char c - 48"

definition decimal_value :: "string \<Rightarrow> nat" where
  "decimal_value ds = foldl (\<lambda>n c. 10 * n + digit_value c) 0 ds"

definition is_hex_digit :: "char \<Rightarrow> bool" where
  "is_hex_digit c =
     (is_digit c \<or> (65 \<le> (of_char c :: nat) \<and> (of_char c :: nat) \<le> 70)
        \<or> (97 \<le> (of_char c :: nat) \<and> (of_char c :: nat) \<le> 102))"

definition hex_digit_value :: "char \<Rightarrow> nat" where
  "hex_digit_value c =
     (if is_digit c then of_char c - 48
      else if (of_char c :: nat) \<le> 70 then of_char c - 55
      else of_char c - 87)"

definition hex_value :: "string \<Rightarrow> nat" where
  "hex_value ds = foldl (\<lambda>n c. 16 * n + hex_digit_value c) 0 ds"

definition has_sign :: "string \<Rightarrow> bool" where
  "has_sign s = (s \<noteq> [] \<and> (hd s = CHR ''-'' \<or> hd s = CHR ''+''))"

definition is_negative :: "string \<Rightarrow> bool" where
  "is_negative s = (s \<noteq> [] \<and> hd s = CHR ''-'')"

definition drop_sign :: "string \<Rightarrow> string" where
  "drop_sign s = (if has_sign s then tl s else s)"

definition letter :: "char \<Rightarrow> char \<Rightarrow> char \<Rightarrow> bool" where
  "letter lower upper c = (c = lower \<or> c = upper)"

text \<open>The text begins with \<open>inf\<close> or \<open>nan\<close>.\<close>

definition not_decimal :: "string \<Rightarrow> bool" where
  "not_decimal s =
     (case s of
        a # b # c # _ \<Rightarrow>
          (letter CHR ''i'' CHR ''I'' a \<and> letter CHR ''n'' CHR ''N'' b \<and> letter CHR ''f'' CHR ''F'' c) \<or>
          (letter CHR ''n'' CHR ''N'' a \<and> letter CHR ''a'' CHR ''A'' b \<and> letter CHR ''n'' CHR ''N'' c)
      | _ \<Rightarrow> False)"

text \<open>
  The exponent part, introduced by one of two letters (\<open>e\<close>, \<open>E\<close> after a decimal
  number, \<open>p\<close>, \<open>P\<close> after a hexadecimal one); its digits are decimal in both, and it
  counts only when a digit follows the letter and the optional sign.
\<close>

definition exponent_of :: "char \<Rightarrow> char \<Rightarrow> string \<Rightarrow> int" where
  "exponent_of lower upper s =
     (if s \<noteq> [] \<and> letter lower upper (hd s) then
        (let digits = takeWhile is_digit (drop_sign (tl s)) in
         if digits = [] then 0
         else if is_negative (tl s) then - int (decimal_value digits)
         else int (decimal_value digits))
      else 0)"

text \<open>The value \<open>m * base ^ e\<close> for an exponent of either sign.\<close>

definition scale :: "real \<Rightarrow> real \<Rightarrow> int \<Rightarrow> real" where
  "scale m base e = (if 0 \<le> e then m * base ^ nat e else m / base ^ nat (- e))"

text \<open>A decimal number at the start of \<open>s\<close>; 0 when no digit is there.\<close>

definition decimal_number :: "string \<Rightarrow> real" where
  "decimal_number s =
     (let int_digits = takeWhile is_digit s;
          s3 = dropWhile is_digit s;
          has_point = (s3 \<noteq> [] \<and> hd s3 = CHR ''.'');
          frac_digits = (if has_point then takeWhile is_digit (tl s3) else []);
          s4 = (if has_point then dropWhile is_digit (tl s3) else s3);
          mantissa = real (decimal_value (int_digits @ frac_digits)) / 10 ^ length frac_digits
      in if int_digits = [] \<and> frac_digits = [] then 0
         else scale mantissa 10 (exponent_of CHR ''e'' CHR ''E'' s4))"

text \<open>
  A hexadecimal number at the start of \<open>s\<close>, which is the text after \<open>0x\<close>; \<open>None\<close> when no
  hexadecimal digit is there.
\<close>

definition hex_number :: "string \<Rightarrow> real option" where
  "hex_number s =
     (let int_digits = takeWhile is_hex_digit s;
          s3 = dropWhile is_hex_digit s;
          has_point = (s3 \<noteq> [] \<and> hd s3 = CHR ''.'');
          frac_digits = (if has_point then takeWhile is_hex_digit (tl s3) else []);
          s4 = (if has_point then dropWhile is_hex_digit (tl s3) else s3);
          mantissa = real (hex_value (int_digits @ frac_digits)) / 16 ^ length frac_digits
      in if int_digits = [] \<and> frac_digits = [] then None
         else Some (scale mantissa 2 (exponent_of CHR ''p'' CHR ''P'' s4)))"

definition has_hex_prefix :: "string \<Rightarrow> bool" where
  "has_hex_prefix s =
     (case s of a # b # _ \<Rightarrow> a = CHR ''0'' \<and> letter CHR ''x'' CHR ''X'' b | _ \<Rightarrow> False)"

definition atof :: "string \<Rightarrow> real option" where
  "atof s =
     (let s1 = dropWhile isspace s;
          s2 = drop_sign s1;
          magnitude =
            (case (if has_hex_prefix s2 then hex_number (drop 2 s2) else None) of
               Some h \<Rightarrow> h
             | None \<Rightarrow> decimal_number s2)
      in if not_decimal s2 then None
         else Some (if is_negative s1 then - magnitude else magnitude))"

text \<open>
  \<open>atoi\<close>: the C standard leaves the result undefined when the value does not fit an
  \<open>int\<close> (32 bits); the model is \<open>None\<close> there.
\<close>

definition atoi :: "string \<Rightarrow> int option" where
  "atoi s =
     (let s1 = dropWhile isspace s;
          n = int (decimal_value (takeWhile is_digit (drop_sign s1)));
          v = (if is_negative s1 then - n else n)
      in if - (2 ^ 31) \<le> v \<and> v < 2 ^ 31 then Some v else None)"

text \<open>The conversion of the \<open>int\<close> to the \<open>size_t\<close> parameter of \<open>build\<close> (64 bits).\<close>

definition size_t_of_int :: "int \<Rightarrow> nat" where
  "size_t_of_int i = nat (i mod 2 ^ 64)"

subsection \<open>The vector parser\<close>

text \<open>
  Modelled from the spec: the index's object factory (\<open>k_tree.h\<close> is not part of the
  sources at hand).  \<open>new_object\<close> yields a writable vector of as many components as the
  index was declared with; what the components hold before they are written is not
  specified, so the model takes that content as the parameter \<open>prior\<close>.
\<close>

definition new_object :: "nat \<Rightarrow> 'f \<Rightarrow> 'f list" where
  "new_object dimensions prior = replicate dimensions prior"

text \<open>
  The do-while loop of lines 182 to 194 on one line.  \<open>vector[dimension] = value\<close> is an
  unchecked array write: at \<open>dimension \<ge> length vector\<close> it lands outside the object, and
  the model stops there with \<open>Wrote_past_end\<close>, the index and the value written.
  \<open>Not_decimal\<close> is where \<open>atof\<close> has no real value (an infinity or a NaN).
\<close>

datatype 'f parse_result =
    Filled "'f list"
  | Wrote_past_end nat 'f
  | Not_decimal

function parse_line :: "(real \<Rightarrow> 'f) \<Rightarrow> string \<Rightarrow> nat \<Rightarrow> 'f list \<Rightarrow> nat \<Rightarrow> 'f parse_result" where
  "parse_line fl buffer pos vector dimension =
     (let pos1 = skip_space buffer pos in
      if byte_at buffer pos1 = NUL then Filled vector
      else
        (case atof (c_str buffer pos1) of
           None \<Rightarrow> Not_decimal
         | Some x \<Rightarrow>
             (let pos2 = skip_token buffer pos1 in
              if dimension < length vector then
                (if byte_at buffer pos2 \<noteq> NUL
                 then parse_line fl buffer pos2 (vector[dimension := fl x]) (dimension + 1)
                 else Filled (vector[dimension := fl x]))
              else Wrote_past_end dimension (fl x))))"
  by pat_completeness auto
termination
proof (relation "measure (\<lambda>(fl, buffer, pos, vector, dimension). length buffer - pos)")
  show "wf (measure (\<lambda>(fl :: real \<Rightarrow> 'f, buffer, pos, vector :: 'f list, dimension :: nat).
              length buffer - pos))"
    by simp
next
  fix fl :: "real \<Rightarrow> 'f" and buffer :: string and pos pos1 pos2 dimension :: nat
    and vector :: "'f list" and x :: real
  assume p1: "pos1 = skip_space buffer pos"
    and nz1: "byte_at buffer pos1 \<noteq> NUL"
    and p2: "pos2 = skip_token buffer pos1"
    and nz2: "byte_at buffer pos2 \<noteq> NUL"
  have "p \<le> skip_space buffer p" for p
    by (induction buffer p rule: skip_space.induct) (subst skip_space.simps, auto)
  then have a: "pos \<le> pos1"
    by (simp add: p1)
  have "p \<le> skip_token buffer p" for p
    by (induction buffer p rule: skip_token.induct) (subst skip_token.simps, auto)
  then have "pos1 + 1 \<le> skip_token buffer (pos1 + 1)" .
  moreover have "\<not> isspace (byte_at buffer (skip_space buffer p))" for p
    by (induction buffer p rule: skip_space.induct) (subst skip_space.simps, auto)
  then have "\<not> isspace (byte_at buffer pos1)"
    by (simp add: p1)
  with nz1 have "skip_token buffer pos1 = skip_token buffer (pos1 + 1)"
    by (subst skip_token.simps) simp
  ultimately have b: "pos1 < pos2"
    by (simp add: p2)
  from nz2 have "pos2 < length buffer"
    by (auto simp: byte_at_def split: if_splits)
  with a b
  show "((fl, buffer, pos2, vector[dimension := fl x], dimension + 1),
         (fl, buffer, pos, vector, dimension))
          \<in> measure (\<lambda>(fl, buffer, pos, vector, dimension). length buffer - pos)"
    by simp
qed

declare parse_line.simps [simp del]

subsection \<open>The index\<close>

text \<open>
  Modelled from the spec: the k-tree itself (\<open>k_tree.h\<close> is not part of the sources at
  hand).  Of the index the pipeline uses the constructor, which takes the tree order and
  the dimensionality, \<open>push_back\<close>, which inserts one vector, and the streaming
  operator, which writes the index.  The model keeps what was inserted, in order; the
  clustering and the byte layout of the output are the index's own.
\<close>

record 'f k_tree =
  tree_order :: nat
  dimensions :: nat
  members :: "'f list list"

definition new_k_tree :: "nat \<Rightarrow> nat \<Rightarrow> 'f k_tree" where
  "new_k_tree order dims = \<lparr>tree_order = order, dimensions = dims, members = []\<rparr>"

definition tree_push_back :: "'f k_tree \<Rightarrow> 'f list \<Rightarrow> 'f k_tree" where
  "tree_push_back tree v = tree\<lparr>members := members tree @ [v]\<rparr>"

subsection \<open>The world around the process\<close>

text \<open>
  What the process does to its surroundings, in order: text it prints on standard
  output, \<open>fopen\<close> of a path for reading, \<open>std::ofstream\<close> of a path for writing, and the
  index's self-tests.
\<close>

datatype event =
    Printed string
  | Called_fopen string
  | Called_ofstream string
  | Ran_unittests

text \<open>
  \<open>file_system\<close> answers \<open>fopen\<close>, \<open>can_create\<close> says whether \<open>std::ofstream\<close> manages to
  open a path, \<open>outputs\<close> holds what has been streamed to the files written.
\<close>

record 'f world =
  file_system :: "string \<Rightarrow> input_file option"
  can_create :: "string \<Rightarrow> bool"
  outputs :: "string \<Rightarrow> 'f k_tree option"
  trace :: "event list"

definition log_event :: "event \<Rightarrow> 'f world \<Rightarrow> 'f world" where
  "log_event e w = w\<lparr>trace := trace w @ [e]\<rparr>"

text \<open>
  How a run ends: \<open>main\<close> returns a value, \<open>exit\<close> is called and the process ends with a
  status, or the run reaches an operation whose behaviour C++ leaves undefined (an index
  past the end of the vector of lines or of a vector of floats, an \<open>atoi\<close> out of range)
  or a token that \<open>atof\<close> turns into an infinity or a NaN, for which the model has no
  value.  The model says nothing of what follows such a point.
\<close>

datatype fault =
    Lines_index_out_of_range
  | Vector_index_out_of_range nat
  | Atof_not_decimal
  | Atoi_out_of_range

datatype 'f outcome =
    Returned int "'f world"
  | Exited int "'f world"
  | Undefined fault

text \<open>
  \<open>exit(printf(...))\<close>: \<open>printf\<close> returns the number of bytes it printed, and that number
  is the argument of \<open>exit\<close>.  Of the argument the host keeps the low eight bits as the
  status of the process (POSIX), and that status is what \<open>Exited\<close> records: \<open>exit(256)\<close>
  is a process that ended with status 0.
\<close>

definition exit_status :: "int \<Rightarrow> int" where
  "exit_status n = n mod 256"

definition exit_printf :: "string \<Rightarrow> 'f world \<Rightarrow> 'f outcome" where
  "exit_printf text w = Exited (exit_status (int (length text))) (log_event (Printed text) w)"

definition tree_order_message :: string where
  "tree_order_message = ''Tree order must be between 2 and 1,000,000\<newline>''"

definition cannot_read_message :: "string \<Rightarrow> string" where
  "cannot_read_message infilename =
     ''Cannot read vector file: '' @ [CHR 0x27] @ infilename @ [CHR 0x27, CHR 0x0A]"

subsection \<open>build\<close>

text \<open>The loop of lines 176 to 197: one new object per line, filled and appended.\<close>

fun parse_lines :: "(real \<Rightarrow> 'f) \<Rightarrow> 'f \<Rightarrow> nat \<Rightarrow> string \<Rightarrow> nat list \<Rightarrow> fault + 'f list list" where
  "parse_lines fl prior dims buffer [] = Inr []"
| "parse_lines fl prior dims buffer (line # rest) =
     (case parse_line fl buffer line (new_object dims prior) 0 of
        Filled objectionable \<Rightarrow>
          (case parse_lines fl prior dims buffer rest of
             Inr vector_list \<Rightarrow> Inr (objectionable # vector_list)
           | Inl f \<Rightarrow> Inl f)
      | Wrote_past_end i x \<Rightarrow> Inl (Vector_index_out_of_range i)
      | Not_decimal \<Rightarrow> Inl Atof_not_decimal)"

text \<open>
  Lines 147 to 212, entered once the file is in memory.  \<open>lines[0]\<close> is an unchecked
  index into the vector of lines.
\<close>

definition build_index ::
  "(real \<Rightarrow> 'f) \<Rightarrow> 'f \<Rightarrow> string \<Rightarrow> nat \<Rightarrow> string \<Rightarrow> 'f world \<Rightarrow> 'f outcome" where
  "build_index fl prior file_contents order outfilename w =
     (let (buffer, lines) = buffer_to_list empty_vector file_contents in
      case items lines of
        [] \<Rightarrow> Undefined Lines_index_out_of_range
      | first # _ \<Rightarrow>
          (let dims = count_dimensions buffer first 0 in
           case parse_lines fl prior dims buffer (items lines) of
             Inl f \<Rightarrow> Undefined f
           | Inr vector_list \<Rightarrow>
               (let tree = foldl tree_push_back (new_k_tree order dims) vector_list;
                    w1 = log_event (Called_ofstream outfilename) w
                in Returned 0
                     (if can_create w outfilename
                      then w1\<lparr>outputs := (outputs w1)(outfilename \<mapsto> tree)\<rparr>
                      else w1))))"

text \<open>
  Lines 136 to 142 and what follows them: the file is read through \<open>read_entire_file\<close>
  into a fresh \<open>file_contents\<close>, and \<open>bytes <= 0\<close> ends the run.
\<close>

definition build_read ::
  "(real \<Rightarrow> 'f) \<Rightarrow> 'f \<Rightarrow> string \<Rightarrow> nat \<Rightarrow> string \<Rightarrow> 'f world \<Rightarrow> 'f outcome" where
  "build_read fl prior infilename order outfilename w =
     (let (bytes, file_contents) = read_entire_file (file_system w) infilename [];
          w1 = log_event (Called_fopen infilename) w
      in if bytes \<le> 0 then exit_printf (cannot_read_message infilename) w1
         else build_index fl prior file_contents order outfilename w1)"

text \<open>The function from its first line: the check of the tree order comes before all else.\<close>

definition build ::
  "(real \<Rightarrow> 'f) \<Rightarrow> 'f \<Rightarrow> string \<Rightarrow> nat \<Rightarrow> string \<Rightarrow> 'f world \<Rightarrow> 'f outcome" where
  "build fl prior infilename order outfilename w =
     (if order < 2 \<or> 1000000 < order then exit_printf tree_order_message w
      else build_read fl prior infilename order outfilename w)"

subsection \<open>unittest, usage and main\<close>

text \<open>
  Modelled from the spec: the two self-tests called by \<open>unittest\<close> are the index's; they
  do no file I/O.  \<open>unittest\<close> itself returns 0 after them.
\<close>

definition unittest :: "'f world \<Rightarrow> 'f outcome" where
  "unittest w = Returned 0 (log_event Ran_unittests w)"

definition usage_text :: "string \<Rightarrow> string" where
  "usage_text exename =
     ''Usage:'' @ exename @ '' <[build | unittest]> <in_file> <tree_order> <outfile>\<newline>''"

definition usage :: "string \<Rightarrow> 'f world \<Rightarrow> 'f outcome" where
  "usage exename w = Returned 0 (log_event (Printed (usage_text exename)) w)"

text \<open>
  \<open>argv[0]\<close> is \<open>exename\<close> and \<open>argv[1..]\<close> are \<open>args\<close>, so \<open>argc\<close> is one more than the
  number of arguments.
\<close>

definition main :: "(real \<Rightarrow> 'f) \<Rightarrow> 'f \<Rightarrow> string \<Rightarrow> string list \<Rightarrow> 'f world \<Rightarrow> 'f outcome" where
  "main fl prior exename args w =
     (let argc = 1 + length args in
      if argc \<noteq> 5 then
        (if argc = 2 then unittest w else usage exename w)
      else if args ! 0 = ''unittest'' then unittest w
      else if args ! 0 = ''build'' then
        (case atoi (args ! 2) of
           None \<Rightarrow> Undefined Atoi_out_of_range
         | Some n \<Rightarrow> build fl prior (args ! 1) (size_t_of_int n) (args ! 3) w)
      else usage exename w)"

subsection \<open>A world to run examples in\<close>

text \<open>
  Four paths exist: a file of three vectors, a file of two line feeds, an empty file, and
  a directory, which opens and reports a size but delivers no byte to \<open>fread\<close>.
  Floats are reals here and every conversion is exact.
\<close>

definition example_files :: "string \<Rightarrow> input_file option" where
  "example_files path =
     (if path = ''vectors.txt''
      then Some \<lparr>fstat_ok = True, st_size = 12, readable = ''0 0\<newline>1 1\<newline>2 2\<newline>''\<rparr>
      else if path = ''blank.txt''
      then Some \<lparr>fstat_ok = True, st_size = 2, readable = ''\<newline>\<newline>''\<rparr>
      else if path = ''empty.txt''
      then Some \<lparr>fstat_ok = True, st_size = 0, readable = []\<rparr>
      else if path = ''directory''
      then Some \<lparr>fstat_ok = True, st_size = 4096, readable = []\<rparr>
      else None)"

text \<open>A path of 228 bytes, which does not exist.\<close>

definition long_path :: string where
  "long_path = replicate 228 (CHR ''p'')"

definition example_world :: "real world" where
  "example_world =
     \<lparr>file_system = example_files, can_create = (\<lambda>path. True),
      outputs = (\<lambda>path. None), trace = []\<rparr>"

text \<open>The world after the index of \<open>vectors.txt\<close> has been built with order 2.\<close>

definition example_built :: "real world" where
  "example_built =
     example_world
       \<lparr>outputs := (outputs example_world)(''out.txt'' \<mapsto>
          \<lparr>tree_order = 2, dimensions = 2, members = [[0, 0], [1, 1], [2, 2]]\<rparr>),
        trace := [Called_fopen ''vectors.txt'', Called_ofstream ''out.txt'']\<rparr>"

subsection \<open>Lines and tokens as the specification words them\<close>

text \<open>
  These two definitions are not translations of the code; they say what the
  specification means by the non-blank logical lines of a text and by the
  white-space-delimited tokens of a line.  \<open>pieces sep\<close> cuts a text at every separator
  byte; \<open>fields sep\<close> keeps the pieces that are not empty.  A logical line ends at a
  terminator byte, and a line that holds nothing but terminators leaves only empty
  pieces.
\<close>

fun pieces :: "(char \<Rightarrow> bool) \<Rightarrow> string \<Rightarrow> string list" where
  "pieces sep [] = [[]]"
| "pieces sep (c # cs) =
     (if sep c then [] # pieces sep cs
      else (case pieces sep cs of [] \<Rightarrow> [[c]] | p # ps \<Rightarrow> (c # p) # ps))"

definition fields :: "(char \<Rightarrow> bool) \<Rightarrow> string \<Rightarrow> string list" where
  "fields sep text = filter (\<lambda>p. p \<noteq> []) (pieces sep text)"

definition nonblank_lines :: "string \<Rightarrow> string list" where
  "nonblank_lines text = fields is_eol text"


definition tokens :: "string \<Rightarrow> string list" where
  "tokens line = fields isspace line"

subsection \<open>Notions the statements use\<close>

text \<open>Whether a text begins with a byte of a line, and whether it ends with a terminator.\<close>

definition starts_with_text :: "string \<Rightarrow> bool" where
  "starts_with_text buffer = (\<not> is_eol (byte_at buffer 0) \<and> byte_at buffer 0 \<noteq> NUL)"

definition ends_with_eol :: "string \<Rightarrow> bool" where
  "ends_with_eol text = (text \<noteq> [] \<and> is_eol (last text))"

text \<open>
  An unreadable input as the specification lists it: the file is missing (\<open>fopen\<close>
  fails), its size cannot be had (\<open>fstat\<close> fails), it has length zero, or the read
  comes up short of the size reported.
\<close>

definition unreadable :: "(string \<Rightarrow> input_file option) \<Rightarrow> string \<Rightarrow> bool" where
  "unreadable fs path =
     (case fs path of
        None \<Rightarrow> True
      | Some fp \<Rightarrow>
          (if fstat_ok fp then st_size fp = 0 \<or> length (readable fp) < st_size fp
           else True))"

text \<open>The last of these cases alone.\<close>

definition short_read :: "(string \<Rightarrow> input_file option) \<Rightarrow> string \<Rightarrow> bool" where
  "short_read fs path =
     (case fs path of
        None \<Rightarrow> False
      | Some fp \<Rightarrow> fstat_ok fp \<and> st_size fp \<noteq> 0 \<and> length (readable fp) < st_size fp)"

text \<open>
  Whether a vector had to grow while it was filled, seen from the capacity \<open>cap0\<close> and the
  count of reallocations \<open>r0\<close> it started with.
\<close>

definition grown :: "nat \<Rightarrow> nat \<Rightarrow> line_vector \<Rightarrow> bool" where
  "grown cap0 r0 v =
     (if length (items v) \<le> cap0 then capacity v = cap0 \<and> reallocations v = r0
      else r0 < reallocations v)"

section \<open>Properties\<close>

subsection \<open>Rules for running the definitions on examples\<close>

lemmas split_simps = buffer_to_list_def Let_def line_count_of_def count_lines.simps
  split_lines.simps skip_eol.simps byte_at_def is_eol_def NUL_def empty_vector_def
  clear_def reserve_def push_back_def

lemmas loop_simps = count_dimensions.simps parse_line.simps skip_space.simps skip_token.simps
  isspace_def c_str_def byte_at_def NUL_def Let_def

lemmas atof_simps = atof_def drop_sign_def has_sign_def is_negative_def not_decimal_def
  letter_def is_digit_def digit_value_def decimal_value_def exponent_of_def
  decimal_number_def hex_number_def has_hex_prefix_def is_hex_digit_def hex_digit_value_def
  hex_value_def scale_def

lemmas atoi_simps = atoi_def isspace_def drop_sign_def has_sign_def is_negative_def
  is_digit_def digit_value_def decimal_value_def size_t_of_int_def

lemmas example_simps = build_def build_read_def build_index_def read_entire_file_def
  fread_item_def example_world_def example_files_def exit_printf_def exit_status_def
  log_event_def
  cannot_read_message_def tree_order_message_def

subsection \<open>Splitting at separators\<close>

lemma pieces_unfold:
  "pieces sep t = takeWhile (\<lambda>c. \<not> sep c) t #
     (case dropWhile (\<lambda>c. \<not> sep c) t of [] \<Rightarrow> [] | d # r \<Rightarrow> pieces sep r)"
  by (induction t) (auto split: list.splits)

lemma fields_Nil [simp]: "fields sep [] = []"
  by (simp add: fields_def)

lemma fields_sep [simp]: "sep c \<Longrightarrow> fields sep (c # t) = fields sep t"
  by (simp add: fields_def)

lemma fields_dropWhile_sep: "fields sep (dropWhile sep t) = fields sep t"
  by (induction t) auto

lemma fields_start:
  assumes "\<not> sep c"
  shows "fields sep (c # t) =
           (c # takeWhile (\<lambda>c. \<not> sep c) t) # fields sep (dropWhile (\<lambda>c. \<not> sep c) t)"
proof -
  have "fields sep (dropWhile (\<lambda>c. \<not> sep c) t) =
          filter (\<lambda>p. p \<noteq> []) (case dropWhile (\<lambda>c. \<not> sep c) t of [] \<Rightarrow> [] | d # r \<Rightarrow> pieces sep r)"
  proof (cases "dropWhile (\<lambda>c. \<not> sep c) t")
    case Nil
    then show ?thesis by (simp del: dropWhile_eq_Nil_conv)
  next
    case (Cons d r)
    then have "sep d"
      using hd_dropWhile [of "\<lambda>c. \<not> sep c" t] by auto
    with Cons show ?thesis by (simp add: fields_def)
  qed
  moreover have "pieces sep (c # t) = (c # takeWhile (\<lambda>c. \<not> sep c) t) #
     (case dropWhile (\<lambda>c. \<not> sep c) t of [] \<Rightarrow> [] | d # r \<Rightarrow> pieces sep r)"
    using assms by (subst pieces_unfold) simp
  ultimately show ?thesis
    by (simp add: fields_def)
qed

lemma fields_nonempty: "[] \<notin> set (fields sep t)"
  by (simp add: fields_def)

lemma fields_all_sep: "list_all sep t \<Longrightarrow> fields sep t = []"
  by (induction t) auto

lemma c_str_unfold:
  "c_str b p = (if byte_at b p = NUL then [] else byte_at b p # c_str b (p + 1))"
proof (cases "p < length b")
  case True
  then have "drop p b = b ! p # drop (Suc p) b"
    by (simp add: Cons_nth_drop_Suc)
  with True show ?thesis
    by (simp add: c_str_def byte_at_def)
next
  case False
  then show ?thesis by (simp add: c_str_def byte_at_def)
qed

lemma is_eol_NUL [simp]: "\<not> is_eol NUL"
  by (simp add: is_eol_def NUL_def)

lemma byte_at_update: "q \<noteq> p \<Longrightarrow> byte_at (b[p := x]) q = byte_at b q"
  by (simp add: byte_at_def)

lemma byte_at_lt: "byte_at b p \<noteq> NUL \<Longrightarrow> p < length b"
  by (auto simp: byte_at_def split: if_splits)

lemma c_str_update: "p < q \<Longrightarrow> c_str (b[p := x]) q = c_str b q"
  by (simp add: c_str_def)

lemma skip_eol_ge: "p \<le> skip_eol b p"
  by (induction b p rule: skip_eol.induct) (subst skip_eol.simps, auto)

lemma skip_eol_le: "p \<le> length b \<Longrightarrow> skip_eol b p \<le> length b"
proof (induction b p rule: skip_eol.induct)
  case (1 b p)
  show ?case
  proof (cases "is_eol (byte_at b p)")
    case True
    then have "p < length b"
      by (auto simp: byte_at_def is_eol_def NUL_def split: if_splits)
    with True 1 show ?thesis
      by (subst skip_eol.simps) simp
  next
    case False
    with 1 show ?thesis by (subst skip_eol.simps) simp
  qed
qed

lemma skip_eol_not_eol: "\<not> is_eol (byte_at b (skip_eol b p))"
  by (induction b p rule: skip_eol.induct) (subst skip_eol.simps, auto)

lemma c_str_skip_eol: "c_str b (skip_eol b p) = dropWhile is_eol (c_str b p)"
proof (induction b p rule: skip_eol.induct)
  case (1 b p)
  show ?case
  proof (cases "is_eol (byte_at b p)")
    case True
    then have "byte_at b p \<noteq> NUL" by auto
    then have "c_str b p = byte_at b p # c_str b (p + 1)"
      by (subst c_str_unfold) simp
    with True 1 show ?thesis
      by (subst skip_eol.simps) simp
  next
    case False
    then have "dropWhile is_eol (c_str b p) = c_str b p"
      by (subst (1 2) c_str_unfold) simp
    with False show ?thesis
      by (subst skip_eol.simps) simp
  qed
qed

lemma skip_eol_update: "p < q \<Longrightarrow> skip_eol (b[p := x]) q = skip_eol b q"
proof (induction b q rule: skip_eol.induct)
  case (1 b q)
  then have eq: "byte_at (b[p := x]) q = byte_at b q"
    by (simp add: byte_at_update)
  show ?case
  proof (cases "is_eol (byte_at b q)")
    case True
    with 1 eq show ?thesis
      by (subst (1 2) skip_eol.simps) simp
  next
    case False
    with eq show ?thesis
      by (subst (1 2) skip_eol.simps) simp
  qed
qed

lemma items_push_back [simp]: "items (push_back p v) = items v @ [p]"
  by (simp add: push_back_def)

lemma split_lines_inv:
  "\<exists>b' v' new. split_lines b p v = (b', v') \<and> length b' = length b \<and> take p b' = take p b \<and>
      items v' = items v @ new \<and>
      c_str b' p = takeWhile (\<lambda>c. \<not> is_eol c) (c_str b p) \<and>
      map (c_str b') new = nonblank_lines (dropWhile (\<lambda>c. \<not> is_eol c) (c_str b p))"
proof (induction b p v rule: split_lines.induct)
  case (1 b p v)
  show ?case
  proof (cases "byte_at b p = NUL")
    case True
    then have "c_str b p = []"
      by (subst c_str_unfold) simp
    with True show ?thesis
      by (subst split_lines.simps) (simp add: nonblank_lines_def)
  next
    case nz: False
    then have lt: "p < length b" by (rule byte_at_lt)
    have cs: "c_str b p = byte_at b p # c_str b (p + 1)"
      using nz by (subst c_str_unfold) simp
    show ?thesis
    proof (cases "is_eol (byte_at b p)")
      case False
      from "1.IH"(2) [OF nz False]
      obtain b' v' new where r: "split_lines b (p + 1) v = (b', v')"
        and len: "length b' = length b"
        and tk: "take (p + 1) b' = take (p + 1) b"
        and it: "items v' = items v @ new"
        and cur: "c_str b' (p + 1) = takeWhile (\<lambda>c. \<not> is_eol c) (c_str b (p + 1))"
        and rest: "map (c_str b') new =
                     nonblank_lines (dropWhile (\<lambda>c. \<not> is_eol c) (c_str b (p + 1)))"
        by blast
      have sl: "split_lines b p v = (b', v')"
        using nz False r by (subst split_lines.simps) simp
      from tk have "take p (take (p + 1) b') = take p (take (p + 1) b)"
        by simp
      then have tk': "take p b' = take p b"
        by (simp add: min_def)
      from tk have "take (p + 1) b' ! p = take (p + 1) b ! p" by simp
      then have "b' ! p = b ! p" by simp
      with lt len have same: "byte_at b' p = byte_at b p"
        by (simp add: byte_at_def)
      have "c_str b' p = byte_at b p # c_str b' (p + 1)"
        using nz same by (subst c_str_unfold) simp
      with cur cs False have cur': "c_str b' p = takeWhile (\<lambda>c. \<not> is_eol c) (c_str b p)"
        by simp
      from rest cs False
      have "map (c_str b') new = nonblank_lines (dropWhile (\<lambda>c. \<not> is_eol c) (c_str b p))"
        by simp
      with sl len tk' it cur' show ?thesis by blast
    next
      case eol: True
      define b1 where "b1 = b[p := NUL]"
      define p2 where "p2 = skip_eol b1 (p + 1)"
      define v2 where "v2 = (if byte_at b1 p2 \<noteq> NUL then push_back p2 v else v)"
      from "1.IH"(1) [OF nz eol b1_def p2_def v2_def]
      obtain b' v' new where r: "split_lines b1 p2 v2 = (b', v')"
        and len: "length b' = length b1"
        and tk: "take p2 b' = take p2 b1"
        and it: "items v' = items v2 @ new"
        and cur: "c_str b' p2 = takeWhile (\<lambda>c. \<not> is_eol c) (c_str b1 p2)"
        and rest: "map (c_str b') new =
                     nonblank_lines (dropWhile (\<lambda>c. \<not> is_eol c) (c_str b1 p2))"
        by blast
      have "split_lines b p v = split_lines b1 p2 v2"
        using nz eol
        by (subst split_lines.simps) (simp add: b1_def p2_def v2_def Let_def)
      with r have sl: "split_lines b p v = (b', v')"
        by simp
      have len': "length b' = length b"
        using len by (simp add: b1_def)
      have p_lt: "p < p2"
        using skip_eol_ge [of "p + 1" b1] by (simp add: p2_def)
      have "take p (take p2 b') = take p (take p2 b1)"
        using tk by simp
      with p_lt have tk1: "take p b' = take p b1"
        by (simp add: min_def)
      then have tk': "take p b' = take p b"
        by (simp add: b1_def)
      from tk have "take p2 b' ! p = take p2 b1 ! p" by simp
      with p_lt have "b' ! p = b1 ! p" by simp
      with lt have "b' ! p = NUL" by (simp add: b1_def)
      with lt len' have "byte_at b' p = NUL"
        by (simp add: byte_at_def)
      then have "c_str b' p = []"
        by (subst c_str_unfold) simp
      with cs eol have cur': "c_str b' p = takeWhile (\<lambda>c. \<not> is_eol c) (c_str b p)"
        by simp
      have "c_str b1 p2 = dropWhile is_eol (c_str b1 (p + 1))"
        by (simp add: p2_def c_str_skip_eol)
      also have "c_str b1 (p + 1) = c_str b (p + 1)"
        by (simp add: b1_def c_str_update)
      finally have t2: "c_str b1 p2 = dropWhile is_eol (c_str b p)"
        using cs eol by simp
      have goal_rhs: "nonblank_lines (dropWhile (\<lambda>c. \<not> is_eol c) (c_str b p))
                      = nonblank_lines (c_str b1 p2)"
        using cs eol t2 by (simp add: nonblank_lines_def fields_dropWhile_sep)
      show ?thesis
      proof (cases "byte_at b1 p2 = NUL")
        case True
        then have "c_str b1 p2 = []"
          by (subst c_str_unfold) simp
        with rest goal_rhs True it
        have "items v' = items v @ new"
          and "map (c_str b') new = nonblank_lines (dropWhile (\<lambda>c. \<not> is_eol c) (c_str b p))"
          by (simp_all add: v2_def)
        with sl len' tk' cur' show ?thesis by blast
      next
        case False
        have ne: "\<not> is_eol (byte_at b1 p2)"
          by (simp add: p2_def skip_eol_not_eol)
        have "c_str b1 p2 = byte_at b1 p2 # c_str b1 (p2 + 1)"
          using False by (subst c_str_unfold) simp
        then have "nonblank_lines (c_str b1 p2) =
                     takeWhile (\<lambda>c. \<not> is_eol c) (c_str b1 p2) #
                     nonblank_lines (dropWhile (\<lambda>c. \<not> is_eol c) (c_str b1 p2))"
          using ne by (simp add: nonblank_lines_def fields_start)
        with cur rest goal_rhs
        have m: "map (c_str b') (p2 # new) =
                   nonblank_lines (dropWhile (\<lambda>c. \<not> is_eol c) (c_str b p))"
          by simp
        from it False have "items v' = items v @ (p2 # new)"
          by (simp add: v2_def)
        with m sl len' tk' cur' show ?thesis by blast
      qed
    qed
  qed
qed

lemma buffer_to_list_lines:
  "lines_of (buffer_to_list line_list buffer) = nonblank_lines (c_str buffer 0)"
proof -
  define v1 where "v1 = reserve (line_count_of buffer) (clear line_list)"
  define v2 where "v2 = (if \<not> is_eol (byte_at buffer 0) \<and> byte_at buffer 0 \<noteq> NUL
                        then push_back 0 v1 else v1)"
  have i1: "items v1 = []"
    by (simp add: v1_def reserve_def clear_def)
  obtain b' v' new where r: "split_lines buffer 0 v2 = (b', v')"
    and it: "items v' = items v2 @ new"
    and cur: "c_str b' 0 = takeWhile (\<lambda>c. \<not> is_eol c) (c_str buffer 0)"
    and rest: "map (c_str b') new =
                 nonblank_lines (dropWhile (\<lambda>c. \<not> is_eol c) (c_str buffer 0))"
    using split_lines_inv [of buffer 0 v2] by blast
  have "buffer_to_list line_list buffer = split_lines buffer 0 v2"
    by (simp add: buffer_to_list_def Let_def v1_def v2_def)
  with r have b2l: "buffer_to_list line_list buffer = (b', v')"
    by simp
  show ?thesis
  proof (cases "\<not> is_eol (byte_at buffer 0) \<and> byte_at buffer 0 \<noteq> NUL")
    case True
    then have "c_str buffer 0 = byte_at buffer 0 # c_str buffer (0 + 1)"
      by (subst c_str_unfold) simp
    then have "nonblank_lines (c_str buffer 0) =
                 takeWhile (\<lambda>c. \<not> is_eol c) (c_str buffer 0) #
                 nonblank_lines (dropWhile (\<lambda>c. \<not> is_eol c) (c_str buffer 0))"
      using True by (simp add: nonblank_lines_def fields_start)
    moreover from True it i1 have "items v' = 0 # new"
      by (simp add: v2_def)
    ultimately show ?thesis
      using cur rest b2l by (simp add: lines_of_def)
  next
    case False
    have "dropWhile (\<lambda>c. \<not> is_eol c) (c_str buffer 0) = c_str buffer 0"
      using False by (subst (1 2) c_str_unfold) auto
    moreover from False it i1 have "items v' = new"
      by (simp add: v2_def)
    ultimately show ?thesis
      using rest b2l by (simp add: lines_of_def)
  qed
qed

lemma pieces_not_Nil: "pieces sep t \<noteq> []"
  by (induction t) (auto split: list.splits)

lemma pieces_append_sep: "sep s \<Longrightarrow> pieces sep (xs @ s # t) = pieces sep xs @ pieces sep t"
proof (induction xs)
  case Nil
  then show ?case by simp
next
  case (Cons c xs)
  then show ?case
    using pieces_not_Nil [of sep xs] by (cases "pieces sep xs") auto
qed

lemma fields_append_sep: "sep s \<Longrightarrow> fields sep (xs @ s # t) = fields sep xs @ fields sep t"
  by (simp add: fields_def pieces_append_sep)

lemma fields_single:
  assumes "l \<noteq> []" and "list_all (\<lambda>c. \<not> sep c) l"
  shows "fields sep l = [l]"
proof (cases l)
  case Nil
  with assms show ?thesis by simp
next
  case (Cons c t)
  with assms have "\<not> sep c" and all: "\<forall>x\<in>set t. \<not> sep x"
    by (auto simp: list_all_iff)
  then have tw: "takeWhile (\<lambda>c. \<not> sep c) t = t" and dw: "dropWhile (\<lambda>c. \<not> sep c) t = []"
    by simp_all
  have "fields sep (c # t) = (c # takeWhile (\<lambda>c. \<not> sep c) t) # fields sep (dropWhile (\<lambda>c. \<not> sep c) t)"
    using \<open>\<not> sep c\<close> by (rule fields_start)
  then show ?thesis
    unfolding Cons tw dw by simp
qed

lemma c_str_no_NUL: "NUL \<notin> set b \<Longrightarrow> c_str b 0 = b"
  by (auto simp: c_str_def)

text \<open>
  Claim C1.  Whatever vector and buffer \<open>buffer_to_list\<close> is given, the lines it
  returns are the non-blank lines of the text in the buffer, one reference each, in the
  order of the text.  The text of a buffer is what a "C" string holds of it, the bytes
  before the first zero byte; that is all of the buffer when it holds no zero byte.  A
  text of terminators alone gives no line, a last line without terminator is returned
  like the others, the example of the specification gives its two lines, and no line
  returned is empty.
\<close>

theorem C1_buffer_to_list_nonblank_lines:
  "lines_of (buffer_to_list line_list buffer) = nonblank_lines (c_str buffer 0)
   \<and> (NUL \<notin> set buffer \<longrightarrow>
        lines_of (buffer_to_list line_list buffer) = nonblank_lines buffer)
   \<and> (list_all is_eol buffer \<longrightarrow> lines_of (buffer_to_list line_list buffer) = [])
   \<and> (final \<noteq> [] \<and> list_all (\<lambda>c. \<not> is_eol c \<and> c \<noteq> NUL) final \<and>
        NUL \<notin> set before \<and> (before = [] \<or> is_eol (last before)) \<longrightarrow>
        lines_of (buffer_to_list line_list (before @ final)) = nonblank_lines before @ [final])
   \<and> lines_of (buffer_to_list line_list ''a b\<newline>\<newline>\<newline>c d\<newline>'') = [''a b'', ''c d'']
   \<and> [] \<notin> set (lines_of (buffer_to_list line_list buffer))"
proof (intro conjI impI)
  show g: "lines_of (buffer_to_list line_list buffer) = nonblank_lines (c_str buffer 0)"
    for line_list buffer
    by (rule buffer_to_list_lines)
  show "[] \<notin> set (lines_of (buffer_to_list line_list buffer))"
    unfolding g nonblank_lines_def by (rule fields_nonempty)
  show "lines_of (buffer_to_list line_list buffer) = nonblank_lines buffer"
    if "NUL \<notin> set buffer"
    unfolding g c_str_no_NUL [OF that] ..
  show "lines_of (buffer_to_list line_list buffer) = []" if a: "list_all is_eol buffer"
  proof -
    from a have "NUL \<notin> set buffer"
      by (auto simp: list_all_iff)
    then have "c_str buffer 0 = buffer"
      by (rule c_str_no_NUL)
    then show ?thesis
      unfolding g nonblank_lines_def using a by (simp only: fields_all_sep)
  qed
  show "lines_of (buffer_to_list line_list (before @ final)) = nonblank_lines before @ [final]"
    if a: "final \<noteq> [] \<and> list_all (\<lambda>c. \<not> is_eol c \<and> c \<noteq> NUL) final \<and>
           NUL \<notin> set before \<and> (before = [] \<or> is_eol (last before))"
  proof -
    from a have nn: "NUL \<notin> set (before @ final)"
      by (auto simp: list_all_iff)
    from a have f: "fields is_eol final = [final]"
      by (intro fields_single) (auto simp: list_all_iff)
    have "fields is_eol (before @ final) = fields is_eol before @ [final]"
    proof (cases "before = []")
      case True
      with f show ?thesis by simp
    next
      case False
      with a have e: "is_eol (last before)" by simp
      from False have "before = butlast before @ [last before]" by simp
      then have "fields is_eol (before @ final) =
                   fields is_eol (butlast before @ last before # final)"
        by (metis append.assoc append_Cons append_Nil)
      also have "\<dots> = fields is_eol (butlast before) @ fields is_eol final"
        using e by (rule fields_append_sep)
      also have "fields is_eol (butlast before) = fields is_eol (butlast before @ last before # [])"
        using e by (simp add: fields_append_sep)
      finally show ?thesis
        using False f by simp
    qed
    then show ?thesis
      unfolding g c_str_no_NUL [OF nn] nonblank_lines_def .
  qed
  have "nonblank_lines ''a b\<newline>\<newline>\<newline>c d\<newline>'' = [''a b'', ''c d'']"
    by (simp add: nonblank_lines_def fields_def is_eol_def)
  moreover have "NUL \<notin> set ''a b\<newline>\<newline>\<newline>c d\<newline>''"
    by (simp add: NUL_def)
  then have "c_str ''a b\<newline>\<newline>\<newline>c d\<newline>'' 0 = ''a b\<newline>\<newline>\<newline>c d\<newline>''"
    by (rule c_str_no_NUL)
  ultimately
  show "lines_of (buffer_to_list line_list ''a b\<newline>\<newline>\<newline>c d\<newline>'') = [''a b'', ''c d'']"
    unfolding g by (simp only:)
qed

theorem C1_buffer_to_list_nonblank_lines_witness:
  "lines_of (buffer_to_list empty_vector ''a b\<newline>c d'') = [''a b'', ''c d'']
   \<and> lines_of (buffer_to_list empty_vector [CHR 0x0D, CHR 0x0A, CHR 0x0A]) = []
   \<and> lines_of (buffer_to_list empty_vector (''a b\<newline>'' @ ''c d'')) = [''a b'', ''c d'']"
proof -
  have 1: "NUL \<notin> set ''a b\<newline>c d''"
    by (simp add: NUL_def)
  have 2: "nonblank_lines ''a b\<newline>c d'' = [''a b'', ''c d'']"
    by (simp add: nonblank_lines_def fields_def is_eol_def)
  have 3: "list_all is_eol [CHR 0x0D, CHR 0x0A, CHR 0x0A]"
    by (simp add: is_eol_def)
  have 4: "''c d'' \<noteq> [] \<and> list_all (\<lambda>c. \<not> is_eol c \<and> c \<noteq> NUL) ''c d'' \<and>
           NUL \<notin> set ''a b\<newline>'' \<and> (''a b\<newline>'' = [] \<or> is_eol (last ''a b\<newline>''))"
    by (simp add: is_eol_def NUL_def)
  have 5: "nonblank_lines ''a b\<newline>'' = [''a b'']"
    by (simp add: nonblank_lines_def fields_def is_eol_def)
  from C1_buffer_to_list_nonblank_lines [of empty_vector "''a b\<newline>c d''"] 1
  have "lines_of (buffer_to_list empty_vector ''a b\<newline>c d'') = nonblank_lines ''a b\<newline>c d''"
    by blast
  with 2 have a: "lines_of (buffer_to_list empty_vector ''a b\<newline>c d'') = [''a b'', ''c d'']"
    by (simp only:)
  from C1_buffer_to_list_nonblank_lines [of empty_vector "[CHR 0x0D, CHR 0x0A, CHR 0x0A]"] 3
  have b: "lines_of (buffer_to_list empty_vector [CHR 0x0D, CHR 0x0A, CHR 0x0A]) = []"
    by blast
  from C1_buffer_to_list_nonblank_lines [of empty_vector _ "''c d''" "''a b\<newline>''"] 4
  have "lines_of (buffer_to_list empty_vector (''a b\<newline>'' @ ''c d'')) =
          nonblank_lines ''a b\<newline>'' @ [''c d'']"
    by blast
  with 5 have c: "lines_of (buffer_to_list empty_vector (''a b\<newline>'' @ ''c d'')) = [''a b'', ''c d'']"
    by (simp only: append.simps)
  from a b c show ?thesis by blast
qed
subsection \<open>The two passes of buffer\_to\_list\<close>

lemma count_lines_update: "p < q \<Longrightarrow> count_lines (b[p := x]) q n = count_lines b q n"
proof (induction b q n rule: count_lines.induct)
  case (1 b q n)
  then have eq: "byte_at (b[p := x]) q = byte_at b q"
    by (simp add: byte_at_update)
  have sk: "skip_eol (b[p := x]) q = skip_eol b q"
    using 1(3) by (rule skip_eol_update)
  show ?case
  proof (cases "byte_at b q = NUL")
    case True
    with eq show ?thesis
      by (subst (1 2) count_lines.simps) simp
  next
    case nz: False
    show ?thesis
    proof (cases "is_eol (byte_at b q)")
      case True
      have "p < skip_eol b q"
        using 1(3) skip_eol_ge [of q b] by simp
      with 1(1) [OF nz True] nz True eq sk show ?thesis
        by (subst (1 2) count_lines.simps) simp
    next
      case False
      with 1(2) [OF nz False] 1(3) nz eq show ?thesis
        by (subst (1 2) count_lines.simps) simp
    qed
  qed
qed

lemma last_dropWhile: "dropWhile P t \<noteq> [] \<Longrightarrow> last (dropWhile P t) = last t"
  by (induction t) (auto split: if_splits)

lemma ends_with_eol_Cons:
  "ends_with_eol (c # t) = (if t = [] then is_eol c else ends_with_eol t)"
  by (simp add: ends_with_eol_def)

lemma count_lines_split_lines:
  "count_lines b p n + length (items v) =
     n + length (items (snd (split_lines b p v))) + (if ends_with_eol (c_str b p) then 1 else 0)"
proof (induction b p v arbitrary: n rule: split_lines.induct)
  case (1 b p v)
  show ?case
  proof (cases "byte_at b p = NUL")
    case True
    then have "c_str b p = []"
      by (subst c_str_unfold) simp
    with True show ?thesis
      by (subst split_lines.simps, subst count_lines.simps) (simp add: ends_with_eol_def)
  next
    case nz: False
    then have lt: "p < length b" by (rule byte_at_lt)
    have cs: "c_str b p = byte_at b p # c_str b (p + 1)"
      using nz by (subst c_str_unfold) simp
    show ?thesis
    proof (cases "is_eol (byte_at b p)")
      case False
      have e: "ends_with_eol (c_str b p) = ends_with_eol (c_str b (p + 1))"
        using False by (simp add: cs ends_with_eol_Cons ends_with_eol_def)
      have c: "count_lines b p n = count_lines b (p + 1) n"
        using nz False by (subst count_lines.simps) simp
      have s: "split_lines b p v = split_lines b (p + 1) v"
        using nz False by (subst split_lines.simps) simp
      from "1.IH"(2) [OF nz False, of n] show ?thesis
        by (simp only: e c s)
    next
      case eol: True
      define b1 where "b1 = b[p := NUL]"
      define p2 where "p2 = skip_eol b1 (p + 1)"
      define v2 where "v2 = (if byte_at b1 p2 \<noteq> NUL then push_back p2 v else v)"
      note IH = "1.IH"(1) [OF nz eol b1_def p2_def v2_def, of "n + 1"]
      have s: "split_lines b p v = split_lines b1 p2 v2"
        using nz eol
        by (subst split_lines.simps) (simp add: b1_def p2_def v2_def Let_def)
      have p2': "p2 = skip_eol b (p + 1)"
        by (simp add: p2_def b1_def skip_eol_update)
      have "skip_eol b p = skip_eol b (p + 1)"
        using eol by (subst skip_eol.simps) simp
      then have "count_lines b p n = count_lines b p2 (n + 1)"
        using nz eol p2' by (subst count_lines.simps) simp
      also have "p < p2"
        using skip_eol_ge [of "p + 1" b1] by (simp add: p2_def)
      then have "count_lines b p2 (n + 1) = count_lines b1 p2 (n + 1)"
        by (simp add: b1_def count_lines_update)
      finally have c: "count_lines b p n = count_lines b1 p2 (n + 1)" .
      have "c_str b1 p2 = dropWhile is_eol (c_str b1 (p + 1))"
        by (simp add: p2_def c_str_skip_eol)
      also have "c_str b1 (p + 1) = c_str b (p + 1)"
        by (simp add: b1_def c_str_update)
      finally have t2: "c_str b1 p2 = dropWhile is_eol (c_str b p)"
        using cs eol by simp
      show ?thesis
      proof (cases "byte_at b1 p2 = NUL")
        case True
        then have nil: "c_str b1 p2 = []"
          by (subst c_str_unfold) simp
        with t2 have "dropWhile is_eol (c_str b p) = []"
          by simp
        then have "\<forall>x\<in>set (c_str b p). is_eol x"
          by (simp only: dropWhile_eq_Nil_conv)
        moreover have "c_str b p \<noteq> []"
          using cs by simp
        ultimately have e: "ends_with_eol (c_str b p)"
          by (simp add: ends_with_eol_def)
        from True have "v2 = v"
          by (simp add: v2_def)
        with IH nil e show ?thesis
          by (simp add: s c ends_with_eol_def)
      next
        case False
        then have "c_str b1 p2 \<noteq> []"
          by (subst c_str_unfold) simp
        with t2 have "last (c_str b1 p2) = last (c_str b p)"
          using last_dropWhile [of is_eol "c_str b p"] by simp
        with \<open>c_str b1 p2 \<noteq> []\<close> cs
        have e: "ends_with_eol (c_str b1 p2) = ends_with_eol (c_str b p)"
          by (simp add: ends_with_eol_def)
        from False have "items v2 = items v @ [p2]"
          by (simp add: v2_def)
        with IH e show ?thesis
          by (simp add: s c)
      qed
    qed
  qed
qed

lemma count_and_pushes:
  "line_count_of buffer + (if starts_with_text buffer then 1 else 0) =
     length (items (snd (buffer_to_list line_list buffer))) +
     (if ends_with_eol (c_str buffer 0) then 1 else 0)"
proof -
  define v1 where "v1 = reserve (line_count_of buffer) (clear line_list)"
  define v2 where "v2 = (if starts_with_text buffer then push_back 0 v1 else v1)"
  have i1: "items v1 = []"
    by (simp add: v1_def reserve_def clear_def)
  have r: "buffer_to_list line_list buffer = split_lines buffer 0 v2"
    by (simp add: buffer_to_list_def Let_def v1_def v2_def starts_with_text_def)
  have "length (items v2) = (if starts_with_text buffer then 1 else 0)"
    using i1 by (simp add: v2_def)
  with count_lines_split_lines [of buffer 0 0 v2] show ?thesis
    by (simp add: r line_count_of_def)
qed

lemma grown_push_back: "grown cap0 r0 v \<Longrightarrow> grown cap0 r0 (push_back p v)"
  by (auto simp: grown_def push_back_def split: if_splits)

lemma grown_split_lines: "grown cap0 r0 v \<Longrightarrow> grown cap0 r0 (snd (split_lines b p v))"
proof (induction b p v rule: split_lines.induct)
  case (1 b p v)
  show ?case
  proof (cases "byte_at b p = NUL")
    case True
    with 1(3) show ?thesis
      by (subst split_lines.simps) simp
  next
    case nz: False
    show ?thesis
    proof (cases "is_eol (byte_at b p)")
      case False
      with 1(2) [OF nz False 1(3)] nz show ?thesis
        by (subst split_lines.simps) simp
    next
      case eol: True
      define b1 where "b1 = b[p := NUL]"
      define p2 where "p2 = skip_eol b1 (p + 1)"
      define v2 where "v2 = (if byte_at b1 p2 \<noteq> NUL then push_back p2 v else v)"
      have "grown cap0 r0 v2"
        using 1(3) by (simp add: v2_def grown_push_back)
      from 1(1) [OF nz eol b1_def p2_def v2_def this]
      have "grown cap0 r0 (snd (split_lines b1 p2 v2))" .
      moreover have "split_lines b p v = split_lines b1 p2 v2"
        using nz eol
        by (subst split_lines.simps) (simp add: b1_def p2_def v2_def Let_def)
      ultimately show ?thesis by simp
    qed
  qed
qed

lemma buffer_to_list_reallocations:
  "(reallocations (snd (buffer_to_list line_list buffer)) = reallocations line_list) =
     (length (items (snd (buffer_to_list line_list buffer)))
        \<le> max (capacity line_list) (line_count_of buffer))"
proof -
  define v1 where "v1 = reserve (line_count_of buffer) (clear line_list)"
  define v2 where "v2 = (if \<not> is_eol (byte_at buffer 0) \<and> byte_at buffer 0 \<noteq> NUL
                        then push_back 0 v1 else v1)"
  define cap0 where "cap0 = max (capacity line_list) (line_count_of buffer)"
  have "grown cap0 (reallocations line_list) v1"
    by (simp add: grown_def v1_def cap0_def reserve_def clear_def max_def)
  then have "grown cap0 (reallocations line_list) v2"
    by (simp add: v2_def grown_push_back)
  then have "grown cap0 (reallocations line_list) (snd (split_lines buffer 0 v2))"
    by (rule grown_split_lines)
  moreover have "buffer_to_list line_list buffer = split_lines buffer 0 v2"
    by (simp add: buffer_to_list_def Let_def v1_def v2_def)
  ultimately show ?thesis
    by (auto simp: grown_def cap0_def split: if_splits)
qed


text \<open>
  Where the first pass gets the number of lines right: a text that begins with a line
  and ends with a terminator.  The count is then the number of references pushed, and
  the vector, reserved to the count, does not reallocate while it is filled.
\<close>

lemma line_count_exact:
  assumes "starts_with_text buffer" and "ends_with_eol (c_str buffer 0)"
  shows "length (items (snd (buffer_to_list line_list buffer))) = line_count_of buffer"
    and "reallocations (snd (buffer_to_list line_list buffer)) = reallocations line_list"
proof -
  from count_and_pushes [of buffer line_list] assms
  show a: "length (items (snd (buffer_to_list line_list buffer))) = line_count_of buffer"
    by simp
  from buffer_to_list_reallocations [of line_list buffer] a
  show "reallocations (snd (buffer_to_list line_list buffer)) = reallocations line_list"
    by simp
qed

text \<open>Where it does not: one line too few, or one too many.\<close>

lemma line_count_short:
  assumes "starts_with_text buffer" and "\<not> ends_with_eol (c_str buffer 0)"
  shows "length (items (snd (buffer_to_list line_list buffer))) = line_count_of buffer + 1"
  using count_and_pushes [of buffer line_list] assms by simp

lemma line_count_long:
  assumes "\<not> starts_with_text buffer" and "ends_with_eol (c_str buffer 0)"
  shows "length (items (snd (buffer_to_list line_list buffer))) + 1 = line_count_of buffer"
  using count_and_pushes [of buffer line_list] assms by simp

text \<open>
  Claim C3.  The first pass is written to count the lines, and the vector is reserved
  to "the right size" from its count.  It counts the runs of terminators instead: a
  last line without terminator is not counted, and terminators before the first line
  are counted as a line.  On \<open>0 0\<close>, line feed, \<open>1 1\<close> the count is 1, two references are
  pushed, and the vector reserved for one reallocates on the second.  On a line feed,
  \<open>0 0\<close>, line feed the count is 2 and one reference is pushed.
\<close>

theorem C3_line_count_off_by_one:
  "line_count_of ''0 0\<newline>1 1'' = 1
   \<and> length (items (snd (buffer_to_list empty_vector ''0 0\<newline>1 1''))) = 2
   \<and> reallocations (snd (buffer_to_list empty_vector ''0 0\<newline>1 1'')) = 1
   \<and> line_count_of ''\<newline>0 0\<newline>'' = 2
   \<and> length (items (snd (buffer_to_list empty_vector ''\<newline>0 0\<newline>''))) = 1"
  by (simp add: split_simps)
subsection \<open>Tokens\<close>

lemma isspace_NUL [simp]: "\<not> isspace NUL"
  by (simp add: isspace_def NUL_def)

lemma skip_space_ge: "p \<le> skip_space b p"
  by (induction b p rule: skip_space.induct) (subst skip_space.simps, auto)

lemma skip_space_not_space: "\<not> isspace (byte_at b (skip_space b p))"
  by (induction b p rule: skip_space.induct) (subst skip_space.simps, auto)

lemma skip_space_le: "p \<le> length b \<Longrightarrow> skip_space b p \<le> length b"
proof (induction b p rule: skip_space.induct)
  case (1 b p)
  show ?case
  proof (cases "isspace (byte_at b p)")
    case True
    then have "p < length b"
      by (auto simp: byte_at_def isspace_def NUL_def split: if_splits)
    with True 1 show ?thesis
      by (subst skip_space.simps) simp
  next
    case False
    with 1 show ?thesis by (subst skip_space.simps) simp
  qed
qed

lemma c_str_skip_space: "c_str b (skip_space b p) = dropWhile isspace (c_str b p)"
proof (induction b p rule: skip_space.induct)
  case (1 b p)
  show ?case
  proof (cases "isspace (byte_at b p)")
    case True
    then have "byte_at b p \<noteq> NUL" by auto
    then have "c_str b p = byte_at b p # c_str b (p + 1)"
      by (subst c_str_unfold) simp
    with True 1 show ?thesis
      by (subst skip_space.simps) simp
  next
    case False
    then have "dropWhile isspace (c_str b p) = c_str b p"
      by (subst (1 2) c_str_unfold) simp
    with False show ?thesis
      by (subst skip_space.simps) simp
  qed
qed

lemma skip_token_ge: "p \<le> skip_token b p"
  by (induction b p rule: skip_token.induct) (subst skip_token.simps, auto)

lemma skip_token_le: "p \<le> length b \<Longrightarrow> skip_token b p \<le> length b"
proof (induction b p rule: skip_token.induct)
  case (1 b p)
  show ?case
  proof (cases "byte_at b p \<noteq> NUL \<and> \<not> isspace (byte_at b p)")
    case True
    then have "p < length b"
      by (auto simp: byte_at_def split: if_splits)
    with True 1 show ?thesis
      by (subst skip_token.simps) simp
  next
    case False
    with 1 show ?thesis by (subst skip_token.simps) auto
  qed
qed

lemma c_str_skip_token:
  "c_str b (skip_token b p) = dropWhile (\<lambda>c. \<not> isspace c) (c_str b p)"
proof (induction b p rule: skip_token.induct)
  case (1 b p)
  show ?case
  proof (cases "byte_at b p \<noteq> NUL \<and> \<not> isspace (byte_at b p)")
    case True
    then have "c_str b p = byte_at b p # c_str b (p + 1)"
      by (subst c_str_unfold) simp
    with True 1 show ?thesis
      by (subst skip_token.simps) simp
  next
    case False
    then have "dropWhile (\<lambda>c. \<not> isspace c) (c_str b p) = c_str b p"
      by (subst (1 2) c_str_unfold) auto
    with False show ?thesis
      by (subst skip_token.simps) auto
  qed
qed

text \<open>What one round of the tokenising loops does to the rest of the line.\<close>

lemma token_step:
  assumes "byte_at b (skip_space b p) \<noteq> NUL"
  shows "tokens (c_str b p) =
           takeWhile (\<lambda>c. \<not> isspace c) (c_str b (skip_space b p)) #
           tokens (c_str b (skip_token b (skip_space b p)))"
proof -
  define p1 where "p1 = skip_space b p"
  have ns: "\<not> isspace (byte_at b p1)"
    by (simp add: p1_def skip_space_not_space)
  have cs: "c_str b p1 = byte_at b p1 # c_str b (p1 + 1)"
    using assms by (subst c_str_unfold) (simp add: p1_def)
  have "tokens (c_str b p) = tokens (c_str b p1)"
    by (simp add: tokens_def p1_def c_str_skip_space fields_dropWhile_sep)
  also have "\<dots> = (byte_at b p1 # takeWhile (\<lambda>c. \<not> isspace c) (c_str b (p1 + 1))) #
                   tokens (dropWhile (\<lambda>c. \<not> isspace c) (c_str b (p1 + 1)))"
    using ns by (simp add: cs tokens_def fields_start)
  also have "byte_at b p1 # takeWhile (\<lambda>c. \<not> isspace c) (c_str b (p1 + 1)) =
               takeWhile (\<lambda>c. \<not> isspace c) (c_str b p1)"
    using ns by (simp add: cs)
  also have "dropWhile (\<lambda>c. \<not> isspace c) (c_str b (p1 + 1)) = c_str b (skip_token b p1)"
    using ns by (simp add: c_str_skip_token cs)
  finally show ?thesis
    by (simp add: p1_def)
qed

lemma token_end:
  assumes "byte_at b (skip_space b p) = NUL"
  shows "tokens (c_str b p) = []"
proof -
  have "c_str b (skip_space b p) = []"
    using assms by (subst c_str_unfold) simp
  then have "tokens (c_str b (skip_space b p)) = []"
    by (simp add: tokens_def)
  then show ?thesis
    by (simp add: tokens_def c_str_skip_space fields_dropWhile_sep)
qed

lemma c_str_Nil: "byte_at b p = NUL \<Longrightarrow> c_str b p = []"
  by (subst c_str_unfold) simp

lemma count_dimensions_tokens:
  "count_dimensions b p n = n + length (tokens (c_str b p))"
proof (induction b p n rule: count_dimensions.induct)
  case (1 b p n)
  define p1 where "p1 = skip_space b p"
  define p2 where "p2 = skip_token b p1"
  show ?case
  proof (cases "byte_at b p1 = NUL")
    case True
    then have "tokens (c_str b p) = []"
      unfolding p1_def by (rule token_end)
    with True show ?thesis
      by (subst count_dimensions.simps) (simp add: p1_def Let_def)
  next
    case nz: False
    then have st: "length (tokens (c_str b p)) = 1 + length (tokens (c_str b p2))"
      unfolding p1_def p2_def by (subst token_step) simp_all
    show ?thesis
    proof (cases "byte_at b p2 = NUL")
      case True
      then have "tokens (c_str b p2) = []"
        by (simp add: c_str_Nil tokens_def)
      with nz True st show ?thesis
        by (subst count_dimensions.simps) (simp add: p1_def p2_def Let_def)
    next
      case False
      from "1.IH" [OF p1_def nz p2_def False]
      have "count_dimensions b p2 (n + 1) = n + 1 + length (tokens (c_str b p2))" .
      with nz False st show ?thesis
        by (subst count_dimensions.simps) (simp add: p1_def p2_def Let_def)
    qed
  qed
qed

subsection \<open>Counting and parsing the tokens of a line\<close>

lemma parse_line_overflow:
  "d \<le> length vec \<Longrightarrow> length vec < d + length (tokens (c_str b p)) \<Longrightarrow>
     parse_line fl b p vec d = Not_decimal \<or>
     (\<exists>x. parse_line fl b p vec d = Wrote_past_end (length vec) x)"
proof (induction fl b p vec d rule: parse_line.induct)
  case (1 fl b p vec d)
  define p1 where "p1 = skip_space b p"
  define p2 where "p2 = skip_token b p1"
  show ?case
  proof (cases "byte_at b p1 = NUL")
    case True
    then have "tokens (c_str b p) = []"
      unfolding p1_def by (rule token_end)
    with "1.prems" show ?thesis by simp
  next
    case nz: False
    then have st: "length (tokens (c_str b p)) = 1 + length (tokens (c_str b p2))"
      unfolding p1_def p2_def by (subst token_step) simp_all
    show ?thesis
    proof (cases "atof (c_str b p1)")
      case None
      with nz show ?thesis
        by (subst parse_line.simps) (simp add: p1_def Let_def)
    next
      case (Some x)
      show ?thesis
      proof (cases "d < length vec")
        case False
        with "1.prems" have "d = length vec" by simp
        with nz Some show ?thesis
          by (subst parse_line.simps) (simp add: p1_def Let_def)
      next
        case lt: True
        show ?thesis
        proof (cases "byte_at b p2 = NUL")
          case True
          then have "tokens (c_str b p2) = []"
            by (simp add: c_str_Nil tokens_def)
          with st lt "1.prems" show ?thesis by simp
        next
          case False
          have "parse_line fl b p2 (vec[d := fl x]) (d + 1) = Not_decimal \<or>
                (\<exists>y. parse_line fl b p2 (vec[d := fl x]) (d + 1) =
                       Wrote_past_end (length (vec[d := fl x])) y)"
            using "1.IH" [OF p1_def nz Some p2_def lt False] lt st "1.prems" by simp
          moreover have "parse_line fl b p vec d = parse_line fl b p2 (vec[d := fl x]) (d + 1)"
            using nz Some lt False
            by (subst parse_line.simps) (simp add: p1_def p2_def Let_def)
          ultimately show ?thesis by simp
        qed
      qed
    qed
  qed
qed

text \<open>
  Claim C6.  The count \<open>build\<close> takes from the first line is the number of tokens of
  that line, the maximal runs of bytes that are not white space; a line of white space
  alone, and the empty line, count 0.
\<close>

theorem C6_count_dimensions_counts_tokens:
  "count_dimensions buffer pos 0 = length (tokens (c_str buffer pos))
   \<and> (list_all isspace (c_str buffer pos) \<longrightarrow> count_dimensions buffer pos 0 = 0)
   \<and> count_dimensions ''1.0 2.0 3.0'' 0 0 = 3
   \<and> count_dimensions ''   '' 0 0 = 0
   \<and> count_dimensions '''' 0 0 = 0"
proof (intro conjI impI)
  show "count_dimensions buffer pos 0 = length (tokens (c_str buffer pos))"
    by (simp add: count_dimensions_tokens)
  show "count_dimensions buffer pos 0 = 0" if "list_all isspace (c_str buffer pos)"
    using that by (simp add: count_dimensions_tokens tokens_def fields_all_sep)
  show "count_dimensions ''1.0 2.0 3.0'' 0 0 = 3"
    by (simp add: loop_simps)
  show "count_dimensions ''   '' 0 0 = 0"
    by (simp add: loop_simps)
  show "count_dimensions '''' 0 0 = 0"
    by (simp add: loop_simps)
qed

theorem C6_count_dimensions_counts_tokens_witness:
  "count_dimensions (''7 8'' @ [NUL] @ '' 9   10 '') 4 0 = 2
   \<and> count_dimensions [CHR 0x09, CHR 0x20, CHR 0x0C] 0 0 = 0"
proof -
  have "c_str (''7 8'' @ [NUL] @ '' 9   10 '') 4 = '' 9   10 ''"
    by (simp add: c_str_def NUL_def)
  moreover have "tokens '' 9   10 '' = [''9'', ''10'']"
    by (simp add: tokens_def fields_def isspace_def)
  ultimately have a: "count_dimensions (''7 8'' @ [NUL] @ '' 9   10 '') 4 0 = 2"
    using C6_count_dimensions_counts_tokens [of "''7 8'' @ [NUL] @ '' 9   10 ''" 4] by simp
  have "list_all isspace (c_str [CHR 0x09, CHR 0x20, CHR 0x0C] 0)"
    by (simp add: c_str_def NUL_def isspace_def)
  with C6_count_dimensions_counts_tokens [of "[CHR 0x09, CHR 0x20, CHR 0x0C]" 0]
  have b: "count_dimensions [CHR 0x09, CHR 0x20, CHR 0x0C] 0 0 = 0"
    by blast
  from a b show ?thesis by blast
qed

text \<open>
  Claim C7.  The line \<open>1.5 -2.25 0\<close> has three tokens, and parsing it into a vector of
  three components writes the float of 1.5, of -2.25 and of 0, in this order, whatever
  the components held before.  The three values are binary fractions, so a conversion
  to \<open>float\<close> that is exact on them leaves the vector \<open>[1.5, -2.25, 0]\<close>.
\<close>

theorem C7_parse_line_example:
  "count_dimensions ''1.5 -2.25 0'' 0 0 = 3
   \<and> parse_line fl ''1.5 -2.25 0'' 0 (new_object 3 prior) 0 = Filled [fl (3 / 2), fl (- (9 / 4)), fl 0]
   \<and> ((to_float :: real \<Rightarrow> real) (3 / 2) = 3 / 2 \<and> to_float (- (9 / 4)) = - (9 / 4) \<and> to_float 0 = 0 \<longrightarrow>
        parse_line to_float ''1.5 -2.25 0'' 0 (new_object 3 before) 0 = Filled [3 / 2, - (9 / 4), 0])"
proof -
  have p: "parse_line f ''1.5 -2.25 0'' 0 (new_object 3 z) 0 = Filled [f (3 / 2), f (- (9 / 4)), f 0]"
    for f :: "real \<Rightarrow> 'g" and z
    by (simp add: loop_simps atof_simps new_object_def numeral_3_eq_3)
  have "count_dimensions ''1.5 -2.25 0'' 0 0 = 3"
    by (simp add: loop_simps)
  with p [of fl prior] p [of to_float before] show ?thesis
    by simp
qed

theorem C7_parse_line_example_witness:
  "parse_line (\<lambda>x. x) ''1.5 -2.25 0'' 0 (new_object 3 (7 :: real)) 0 = Filled [3 / 2, - (9 / 4), 0]"
  using C7_parse_line_example [where fl = "\<lambda>x :: real. x" and prior = 7 and to_float = "\<lambda>x. x" and before = 7]
  by simp

text \<open>
  Claim C8.  The loop writes \<open>vector[dimension]\<close> without comparing \<open>dimension\<close> to the
  length of the vector.  A line of decimal numbers with more tokens than the vector has
  components is written up to the last component and then at the index just past it;
  \<open>1 2 3\<close> into a vector of two components writes 3 at index 2.
\<close>

theorem C8_parse_line_writes_past_end:
  "(length vector < length (tokens (c_str buffer pos)) \<longrightarrow>
      parse_line fl buffer pos vector 0 = Not_decimal \<or>
      (\<exists>x. parse_line fl buffer pos vector 0 = Wrote_past_end (length vector) x))
   \<and> length (tokens ''1 2 3'') = 3
   \<and> length (new_object 2 prior) = 2
   \<and> parse_line fl ''1 2 3'' 0 (new_object 2 prior) 0 = Wrote_past_end 2 (fl 3)"
proof (intro conjI impI)
  show "parse_line fl buffer pos vector 0 = Not_decimal \<or>
        (\<exists>x. parse_line fl buffer pos vector 0 = Wrote_past_end (length vector) x)"
    if "length vector < length (tokens (c_str buffer pos))"
    using that parse_line_overflow [of 0 vector buffer pos fl] by simp
  show "length (tokens ''1 2 3'') = 3"
    by (simp add: tokens_def fields_def isspace_def)
  show "length (new_object 2 prior) = 2"
    by (simp add: new_object_def)
  show "parse_line fl ''1 2 3'' 0 (new_object 2 prior) 0 = Wrote_past_end 2 (fl 3)"
    by (simp add: loop_simps atof_simps new_object_def numeral_2_eq_2)
qed

theorem C8_parse_line_writes_past_end_witness:
  "parse_line (\<lambda>x. x) ''4 5 6 7 8'' 0 (new_object 3 (0 :: real)) 0 = Not_decimal \<or>
   (\<exists>x. parse_line (\<lambda>x. x) ''4 5 6 7 8'' 0 (new_object 3 (0 :: real)) 0 = Wrote_past_end 3 x)"
proof -
  have "c_str ''4 5 6 7 8'' 0 = ''4 5 6 7 8''"
    by (simp add: c_str_def NUL_def)
  moreover have "length (tokens ''4 5 6 7 8'') = 5"
    by (simp add: tokens_def fields_def isspace_def)
  moreover have "length (new_object 3 (0 :: real)) = 3"
    by (simp add: new_object_def)
  ultimately show ?thesis
    using C8_parse_line_writes_past_end [of "new_object 3 (0 :: real)" "''4 5 6 7 8''" 0 "\<lambda>x. x"] by simp
qed
subsection \<open>The loader\<close>

lemma read_entire_file_no_length:
  "unreadable fs filename \<Longrightarrow> \<not> short_read fs filename \<Longrightarrow>
     read_entire_file fs filename into = (0, into)"
  by (auto simp: unreadable_def short_read_def read_entire_file_def
           split: option.splits if_splits)

lemma read_entire_file_zero_iff:
  "(fst (read_entire_file fs filename into) = 0) =
     (unreadable fs filename \<and> \<not> short_read fs filename)"
  by (auto simp: unreadable_def short_read_def read_entire_file_def fread_item_def
           split: option.splits if_splits)

lemma read_entire_file_empty_iff:
  "(snd (read_entire_file fs filename []) = []) = unreadable fs filename"
  by (auto simp: unreadable_def read_entire_file_def fread_item_def
           split: option.splits if_splits)

lemma read_entire_file_short:
  "short_read fs filename \<Longrightarrow>
     fst (read_entire_file fs filename into) \<noteq> 0 \<and>
     snd (read_entire_file fs filename into) = []"
  by (auto simp: short_read_def read_entire_file_def fread_item_def
           split: option.splits if_splits)

lemma read_entire_file_short_read:
  assumes "fs filename = Some fp" and "fstat_ok fp" and "length (readable fp) < st_size fp"
  shows "read_entire_file fs filename into = (st_size fp, [])"
  using assms by (simp add: read_entire_file_def fread_item_def)

lemma read_entire_file_length:
  assumes "read_entire_file fs filename [] = (bytes, contents)" and "contents \<noteq> []"
  shows "bytes = length contents"
  using assms
  by (auto simp: read_entire_file_def fread_item_def split: option.splits if_splits)

lemma read_entire_file_zero:
  assumes "read_entire_file fs filename [] = (0, contents)"
  shows "contents = []"
  using assms
  by (auto simp: read_entire_file_def fread_item_def split: option.splits if_splits)

subsection \<open>The driver\<close>

lemma items_Nil_iff:
  "(items (snd (buffer_to_list line_list buffer)) = []) = (nonblank_lines (c_str buffer 0) = [])"
proof -
  have "map (c_str (fst (buffer_to_list line_list buffer)))
          (items (snd (buffer_to_list line_list buffer))) = nonblank_lines (c_str buffer 0)"
    using buffer_to_list_lines [of line_list buffer] by (simp add: lines_of_def)
  then show ?thesis
    by (metis map_is_Nil_conv)
qed

lemma parse_lines_fault: "parse_lines fl prior dims buffer ls = Inl f \<Longrightarrow> f \<noteq> Lines_index_out_of_range"
  by (induction ls arbitrary: f) (auto split: parse_result.splits sum.splits)

lemma parse_lines_length: "parse_lines fl prior dims buffer ls = Inr vs \<Longrightarrow> length vs = length ls"
  by (induction ls arbitrary: vs) (auto split: parse_result.splits sum.splits)

lemma foldl_tree_push_back:
  "foldl tree_push_back tree vs = tree\<lparr>members := members tree @ vs\<rparr>"
  by (induction vs arbitrary: tree) (simp_all add: tree_push_back_def)

lemma build_index_cases:
  obtains (no_line) "items (snd (buffer_to_list empty_vector contents)) = []"
      and "build_index fl prior contents order outfilename w = Undefined Lines_index_out_of_range"
  | (fault) f where "items (snd (buffer_to_list empty_vector contents)) \<noteq> []"
      and "f \<noteq> Lines_index_out_of_range"
      and "build_index fl prior contents order outfilename w = Undefined f"
  | (built) buffer lines vectors where "buffer_to_list empty_vector contents = (buffer, lines)"
      and "items lines \<noteq> []"
      and "parse_lines fl prior (count_dimensions buffer (hd (items lines)) 0) buffer (items lines)
             = Inr vectors"
      and "build_index fl prior contents order outfilename w =
             Returned 0
               (if can_create w outfilename
                then w\<lparr>trace := trace w @ [Called_ofstream outfilename],
                       outputs := (outputs w)(outfilename \<mapsto>
                         \<lparr>tree_order = order,
                          dimensions = count_dimensions buffer (hd (items lines)) 0,
                          members = vectors\<rparr>)\<rparr>
                else w\<lparr>trace := trace w @ [Called_ofstream outfilename]\<rparr>)"
proof -
  obtain buffer lines where b: "buffer_to_list empty_vector contents = (buffer, lines)"
    by (cases "buffer_to_list empty_vector contents")
  show thesis
  proof (cases "items lines")
    case Nil
    with b show thesis
      by (intro no_line) (simp_all add: build_index_def)
  next
    case (Cons first rest)
    define dims where "dims = count_dimensions buffer first 0"
    show thesis
    proof (cases "parse_lines fl prior dims buffer (items lines)")
      case (Inl f)
      then have "f \<noteq> Lines_index_out_of_range"
        by (rule parse_lines_fault)
      with b Cons Inl show thesis
        by (intro fault [of f]) (simp_all add: build_index_def dims_def)
    next
      case (Inr vectors)
      with b Cons show thesis
        by (intro built [of buffer lines vectors])
           (simp_all add: build_index_def dims_def foldl_tree_push_back new_k_tree_def
              log_event_def)
    qed
  qed
qed

lemma tree_order_message_length: "int (length tree_order_message) = 43"
  by (simp add: tree_order_message_def)

lemma build_rejects:
  "order < 2 \<or> 1000000 < order \<Longrightarrow>
     build fl prior infilename order outfilename w =
       Exited 43 (w\<lparr>trace := trace w @ [Printed tree_order_message]\<rparr>)"
  by (simp add: build_def exit_printf_def exit_status_def log_event_def
        tree_order_message_length)

lemma build_accepts:
  "2 \<le> order \<Longrightarrow> order \<le> 1000000 \<Longrightarrow>
     build fl prior infilename order outfilename w =
       build_read fl prior infilename order outfilename w"
  by (simp add: build_def)

lemma build_read_zero:
  assumes "read_entire_file (file_system w) infilename [] = (0, contents)"
  shows "build_read fl prior infilename order outfilename w =
           Exited (exit_status (28 + int (length infilename)))
             (w\<lparr>trace := trace w @ [Called_fopen infilename,
                                      Printed (cannot_read_message infilename)]\<rparr>)"
  using assms
  by (simp add: build_read_def exit_printf_def log_event_def cannot_read_message_def)

lemma build_read_nonzero:
  assumes "read_entire_file (file_system w) infilename [] = (bytes, contents)" and "bytes \<noteq> 0"
  shows "build_read fl prior infilename order outfilename w =
           build_index fl prior contents order outfilename
             (w\<lparr>trace := trace w @ [Called_fopen infilename]\<rparr>)"
  using assms by (simp add: build_read_def log_event_def)

text \<open>Every way \<open>build_read\<close> can end, with the events it adds.\<close>

lemma build_read_cases:
  obtains (cannot_read) contents where
        "read_entire_file (file_system w) infilename [] = (0, contents)"
    and "build_read fl prior infilename order outfilename w =
           Exited (exit_status (28 + int (length infilename)))
             (w\<lparr>trace := trace w @ [Called_fopen infilename,
                                      Printed (cannot_read_message infilename)]\<rparr>)"
  | (stopped) f where "build_read fl prior infilename order outfilename w = Undefined f"
  | (built) contents buffer lines vectors where
        "read_entire_file (file_system w) infilename [] = (length contents, contents)"
    and "contents \<noteq> []"
    and "buffer_to_list empty_vector contents = (buffer, lines)"
    and "items lines \<noteq> []"
    and "parse_lines fl prior (count_dimensions buffer (hd (items lines)) 0) buffer (items lines)
           = Inr vectors"
    and "build_read fl prior infilename order outfilename w =
           Returned 0
             (if can_create w outfilename
              then w\<lparr>trace := trace w @ [Called_fopen infilename,
                                         Called_ofstream outfilename],
                     outputs := (outputs w)(outfilename \<mapsto>
                       \<lparr>tree_order = order,
                        dimensions = count_dimensions buffer (hd (items lines)) 0,
                        members = vectors\<rparr>)\<rparr>
              else w\<lparr>trace := trace w @ [Called_fopen infilename,
                                         Called_ofstream outfilename]\<rparr>)"
proof -
  obtain bytes contents where r: "read_entire_file (file_system w) infilename [] = (bytes, contents)"
    by (cases "read_entire_file (file_system w) infilename []")
  show thesis
  proof (cases "bytes = 0")
    case True
    with r show thesis
      by (intro cannot_read [of contents]) (simp_all add: build_read_zero)
  next
    case False
    define w1 where "w1 = w\<lparr>trace := trace w @ [Called_fopen infilename]\<rparr>"
    have br: "build_read fl prior infilename order outfilename w =
                build_index fl prior contents order outfilename w1"
      using r False unfolding w1_def by (rule build_read_nonzero)
    show thesis
    proof (cases rule: build_index_cases [of contents fl prior order outfilename w1])
      case no_line
      with br show thesis
        by (intro stopped [of Lines_index_out_of_range]) simp
    next
      case (fault f)
      with br show thesis
        by (intro stopped [of f]) simp
    next
      case (built buffer lines vectors)
      have ne: "contents \<noteq> []"
      proof
        assume "contents = []"
        then have "nonblank_lines (c_str contents 0) = []"
          by (simp add: c_str_def nonblank_lines_def)
        then have "items (snd (buffer_to_list empty_vector contents)) = []"
          by (simp only: items_Nil_iff)
        with built(1,2) show False by simp
      qed
      with r have "bytes = length contents"
        by (rule read_entire_file_length)
      with r ne built br show thesis
        by (intro that(3) [of contents buffer lines vectors]) (simp_all add: w1_def)
    qed
  qed
qed

text \<open>
  Claim C2.  The claim holds when \<open>fopen\<close> fails, when \<open>fstat\<close> fails and when the size
  is zero (\<open>read_entire_file_no_length\<close>, \<open>build_read_zero\<close>).  It fails when the read
  comes up short: \<open>into\<close> is emptied but \<open>file_length\<close> keeps the size reported, so the
  function returns a length that is not zero, against its own comment that the length
  returned is the size of the buffer.  \<open>build\<close> then takes the file as read, finds no line
  in the empty buffer and indexes \<open>lines[0]\<close>; no diagnostic is printed.
\<close>

theorem C2_short_read_keeps_file_length:
  "read_entire_file example_files ''directory'' [] = (4096, [])
   \<and> build (\<lambda>x. x) 0 ''directory'' 2 ''out.txt'' example_world =
       Undefined Lines_index_out_of_range"
  by (simp add: example_simps split_simps)

text \<open>
  Claim C5.  Orders 1 and 1,000,001 end the run with the diagnostic and \<open>exit(43)\<close>, the
  number of bytes \<open>printf\<close> printed; the only event is the text printed, so \<open>fopen\<close>
  was not reached.  Orders 2 and 1,000,000 go on to read the file: the rest of \<open>build\<close>
  never ends in the rejection of the tree order, and where it ends with a world, its
  first event is the \<open>fopen\<close> of the input path.
\<close>

theorem C5_tree_order_bounds:
  "build fl prior infilename 1 outfilename w =
     Exited 43 (w\<lparr>trace := trace w @ [Printed tree_order_message]\<rparr>)
   \<and> build fl prior infilename 1000001 outfilename w =
     Exited 43 (w\<lparr>trace := trace w @ [Printed tree_order_message]\<rparr>)
   \<and> build fl prior infilename 2 outfilename w = build_read fl prior infilename 2 outfilename w
   \<and> build fl prior infilename 1000000 outfilename w =
     build_read fl prior infilename 1000000 outfilename w
   \<and> build_read fl prior infilename order outfilename w \<noteq>
     Exited 43 (w\<lparr>trace := trace w @ [Printed tree_order_message]\<rparr>)
   \<and> (order < 2 \<or> 1000000 < order \<longrightarrow>
       build fl prior infilename order outfilename w =
         Exited 43 (w\<lparr>trace := trace w @ [Printed tree_order_message]\<rparr>))
   \<and> (2 \<le> order \<and> order \<le> 1000000 \<longrightarrow>
       build fl prior infilename order outfilename w =
         build_read fl prior infilename order outfilename w)
   \<and> (build_read fl prior infilename order outfilename w = Exited c w' \<or>
      build_read fl prior infilename order outfilename w = Returned c w' \<longrightarrow>
       (\<exists>rest. trace w' = trace w @ Called_fopen infilename # rest))"
proof -
  have rej: "build fl prior infilename n outfilename w =
               Exited 43 (w\<lparr>trace := trace w @ [Printed tree_order_message]\<rparr>)"
    if "n < 2 \<or> 1000000 < n" for n
    using that by (rule build_rejects)
  have acc: "build fl prior infilename n outfilename w =
               build_read fl prior infilename n outfilename w"
    if "2 \<le> n \<and> n \<le> 1000000" for n
    using that by (simp add: build_accepts)
  have other: "build_read fl prior infilename order outfilename w \<noteq>
                 Exited 43 (w\<lparr>trace := trace w @ [Printed tree_order_message]\<rparr>)"
  proof (cases rule: build_read_cases [of w infilename fl prior order outfilename])
    case (cannot_read contents)
    have "trace w @ [Called_fopen infilename, Printed (cannot_read_message infilename)] \<noteq>
          trace w @ [Printed tree_order_message]"
      by simp
    then have "w\<lparr>trace := trace w @ [Called_fopen infilename,
                                      Printed (cannot_read_message infilename)]\<rparr> \<noteq>
               w\<lparr>trace := trace w @ [Printed tree_order_message]\<rparr>"
      by (metis world.select_convs(4) world.surjective world.update_convs(4))
    with cannot_read show ?thesis by simp
  next
    case (stopped f)
    then show ?thesis by simp
  next
    case (built contents buffer lines vectors)
    then show ?thesis by simp
  qed
  have first: "\<exists>rest. trace w' = trace w @ Called_fopen infilename # rest"
    if "build_read fl prior infilename order outfilename w = Exited c w' \<or>
        build_read fl prior infilename order outfilename w = Returned c w'"
  proof (cases rule: build_read_cases [of w infilename fl prior order outfilename])
    case (cannot_read contents)
    with that have "w' = w\<lparr>trace := trace w @ [Called_fopen infilename,
                                      Printed (cannot_read_message infilename)]\<rparr>"
      by simp
    then show ?thesis by simp
  next
    case (stopped f)
    with that show ?thesis by simp
  next
    case (built contents buffer lines vectors)
    with that have "trace w' = trace w @ [Called_fopen infilename, Called_ofstream outfilename]"
      by auto
    then show ?thesis by simp
  qed
  from rej [of 1] rej [of 1000001] acc [of 2] acc [of 1000000] other rej [of order] acc [of order]
    first
  show ?thesis
    by simp
qed

theorem C5_tree_order_bounds_witness:
  "build (\<lambda>x. x) 0 ''vectors.txt'' 0 ''out.txt'' example_world =
     Exited 43 (example_world\<lparr>trace := [Printed tree_order_message]\<rparr>)
   \<and> build (\<lambda>x. x) 0 ''missing.txt'' 17 ''out.txt'' example_world =
     Exited 39 (example_world\<lparr>trace := [Called_fopen ''missing.txt'',
                                           Printed (cannot_read_message ''missing.txt'')]\<rparr>)"
proof -
  have t: "trace example_world = []"
    by (simp add: example_world_def)
  have "build_read (\<lambda>x. x) 0 ''missing.txt'' 17 ''out.txt'' example_world =
     Exited 39 (example_world\<lparr>trace := [Called_fopen ''missing.txt'',
                                           Printed (cannot_read_message ''missing.txt'')]\<rparr>)"
    by (simp add: example_simps)
  with C5_tree_order_bounds [of "\<lambda>x. x" 0 "''vectors.txt''" "''out.txt''" example_world 0]
       C5_tree_order_bounds [of "\<lambda>x. x" 0 "''missing.txt''" "''out.txt''" example_world 17] t
  show ?thesis
    by simp
qed

text \<open>
  Claim C4, as amended.  With four arguments the keyword decides: \<open>unittest\<close> runs the
  self-tests, \<open>build\<close> runs a build on the second to fourth argument, anything else
  prints the usage text.  With one argument \<open>main\<close> runs the self-tests whatever the
  argument is: only \<open>argc\<close> is looked at.  Every other number of arguments prints the
  usage text.  \<open>usage\<close> returns 0.
\<close>

theorem C4_main_dispatch:
  "(length args = 4 \<and> args ! 0 = ''build'' \<and> atoi (args ! 2) = Some n \<longrightarrow>
      main fl prior exename args w =
        build fl prior (args ! 1) (size_t_of_int n) (args ! 3) w)
   \<and> (length args = 4 \<and> args ! 0 = ''unittest'' \<longrightarrow> main fl prior exename args w = unittest w)
   \<and> (length args = 1 \<longrightarrow> main fl prior exename args w = unittest w)
   \<and> (length args \<noteq> 4 \<and> length args \<noteq> 1 \<longrightarrow> main fl prior exename args w = usage exename w)
   \<and> (length args = 4 \<and> args ! 0 \<noteq> ''unittest'' \<and> args ! 0 \<noteq> ''build'' \<longrightarrow>
        main fl prior exename args w = usage exename w)
   \<and> usage exename w = Returned 0 (w\<lparr>trace := trace w @ [Printed (usage_text exename)]\<rparr>)
   \<and> unittest w = Returned 0 (w\<lparr>trace := trace w @ [Ran_unittests]\<rparr>)"
  by (simp add: main_def usage_def unittest_def log_event_def)

theorem C4_main_dispatch_witness:
  "main (\<lambda>x. x) 0 ''k_tree'' [''build'', ''missing.txt'', ''17'', ''out.txt''] example_world =
     build (\<lambda>x. x) 0 ''missing.txt'' 17 ''out.txt'' example_world
   \<and> main (\<lambda>x. x) 0 ''k_tree'' [''unittest'', ''a'', ''2'', ''b''] example_world =
       unittest example_world
   \<and> main (\<lambda>x. x) 0 ''k_tree'' [''unittest''] example_world = unittest example_world
   \<and> main (\<lambda>x. x) 0 ''k_tree'' [''anything''] example_world = unittest example_world
   \<and> main (\<lambda>x. x) 0 ''k_tree'' [] example_world = usage ''k_tree'' example_world
   \<and> main (\<lambda>x. x) 0 ''k_tree'' [''build'', ''vectors.txt''] example_world =
       usage ''k_tree'' example_world
   \<and> main (\<lambda>x. x) 0 ''k_tree'' [''load'', ''vectors.txt'', ''2'', ''out.txt''] example_world =
       usage ''k_tree'' example_world"
proof -
  have a: "atoi ''17'' = Some 17"
    by (simp add: atoi_simps)
  have s: "size_t_of_int 17 = 17"
    by (simp add: size_t_of_int_def)
  note m = C4_main_dispatch [where fl = "\<lambda>x. x" and prior = 0 and exename = "''k_tree''" and w = example_world]
  from m [of "[''build'', ''missing.txt'', ''17'', ''out.txt'']" 17] a s
  have 1: "main (\<lambda>x. x) 0 ''k_tree'' [''build'', ''missing.txt'', ''17'', ''out.txt''] example_world =
             build (\<lambda>x. x) 0 ''missing.txt'' 17 ''out.txt'' example_world"
    by simp
  from m [of "[''unittest'', ''a'', ''2'', ''b'']" 0]
  have 2: "main (\<lambda>x. x) 0 ''k_tree'' [''unittest'', ''a'', ''2'', ''b''] example_world =
             unittest example_world"
    by simp
  from m [of "[''unittest'']" 0]
  have 3: "main (\<lambda>x. x) 0 ''k_tree'' [''unittest''] example_world = unittest example_world"
    by simp
  from m [of "[''anything'']" 0]
  have 4: "main (\<lambda>x. x) 0 ''k_tree'' [''anything''] example_world = unittest example_world"
    by simp
  from m [of "[]" 0]
  have 5: "main (\<lambda>x. x) 0 ''k_tree'' [] example_world = usage ''k_tree'' example_world"
    by simp
  from m [of "[''build'', ''vectors.txt'']" 0]
  have 6: "main (\<lambda>x. x) 0 ''k_tree'' [''build'', ''vectors.txt''] example_world =
             usage ''k_tree'' example_world"
    by simp
  from m [of "[''load'', ''vectors.txt'', ''2'', ''out.txt'']" 0]
  have 7: "main (\<lambda>x. x) 0 ''k_tree'' [''load'', ''vectors.txt'', ''2'', ''out.txt''] example_world =
             usage ''k_tree'' example_world"
    by simp
  from 1 2 3 4 5 6 7 show ?thesis by blast
qed

text \<open>
  One argument that is not \<open>unittest\<close>: the self-tests run and nothing is printed, where
  the claim has the usage text printed.
\<close>

theorem C4_main_dispatch_counterexample:
  "main (\<lambda>x. x) 0 ''k_tree'' [''help''] example_world =
     Returned 0 (example_world\<lparr>trace := [Ran_unittests]\<rparr>)
   \<and> usage ''k_tree'' example_world =
     Returned 0 (example_world\<lparr>trace := [Printed (usage_text ''k_tree'')]\<rparr>)
   \<and> main (\<lambda>x. x) 0 ''k_tree'' [''help''] example_world \<noteq> usage ''k_tree'' example_world"
  by (simp add: main_def usage_def unittest_def log_event_def example_world_def)


text \<open>
  What holds of every run of \<open>build\<close>.  Where it ends in \<open>exit\<close>, \<open>std::ofstream\<close> was not
  reached and the outputs are as they were; the status is 43, or what eight bits keep of
  28 plus the length of the input path.  Where it returns, it returns 0 after the whole
  sequence: the file was read in full, split into at least one line, every line was
  parsed into a vector, and the index written holds those vectors in the order of the
  lines.  An input that is unreadable without a short read ends in \<open>exit\<close>; a short read
  with a tree order in range ends at \<open>lines[0]\<close>.
\<close>

lemma build_all_or_nothing:
  "(build fl prior infilename order outfilename w = Exited c w' \<longrightarrow>
      (c = 43 \<or> c = exit_status (28 + int (length infilename))) \<and> outputs w' = outputs w \<and>
      (\<exists>new. trace w' = trace w @ new \<and> Called_ofstream outfilename \<notin> set new))
   \<and> (build fl prior infilename order outfilename w = Returned c w' \<longrightarrow>
      c = 0 \<and>
      (\<exists>contents buffer lines vectors.
         read_entire_file (file_system w) infilename [] = (length contents, contents) \<and>
         contents \<noteq> [] \<and>
         buffer_to_list empty_vector contents = (buffer, lines) \<and>
         items lines \<noteq> [] \<and>
         parse_lines fl prior (count_dimensions buffer (hd (items lines)) 0) buffer (items lines)
           = Inr vectors \<and>
         length vectors = length (items lines) \<and>
         trace w' = trace w @ [Called_fopen infilename, Called_ofstream outfilename] \<and>
         (can_create w outfilename \<longrightarrow>
            outputs w' outfilename =
              Some \<lparr>tree_order = order,
                    dimensions = count_dimensions buffer (hd (items lines)) 0,
                    members = vectors\<rparr>)))
   \<and> (unreadable (file_system w) infilename \<and> \<not> short_read (file_system w) infilename \<longrightarrow>
      (\<exists>code after. build fl prior infilename order outfilename w = Exited code after \<and>
         outputs after = outputs w \<and>
         (\<exists>new. trace after = trace w @ new \<and> Called_ofstream outfilename \<notin> set new)))
   \<and> (short_read (file_system w) infilename \<and> 2 \<le> order \<and> order \<le> 1000000 \<longrightarrow>
      build fl prior infilename order outfilename w = Undefined Lines_index_out_of_range)"
proof -
  let ?b = "build fl prior infilename order outfilename w"
  have exited: "(c = 43 \<or> c = exit_status (28 + int (length infilename))) \<and>
      outputs w' = outputs w \<and>
      (\<exists>new. trace w' = trace w @ new \<and> Called_ofstream outfilename \<notin> set new)"
    if e: "?b = Exited c w'" for c w'
  proof (cases "order < 2 \<or> 1000000 < order")
    case True
    from build_rejects [OF True, of fl prior infilename outfilename w] e
    have "c = 43" and "w' = w\<lparr>trace := trace w @ [Printed tree_order_message]\<rparr>"
      by simp_all
    then show ?thesis by simp
  next
    case False
    then have br: "?b = build_read fl prior infilename order outfilename w"
      by (simp add: build_accepts)
    show ?thesis
    proof (cases rule: build_read_cases [of w infilename fl prior order outfilename])
      case (cannot_read contents)
      with br e have "c = exit_status (28 + int (length infilename))"
        and "w' = w\<lparr>trace := trace w @ [Called_fopen infilename,
                                         Printed (cannot_read_message infilename)]\<rparr>"
        by simp_all
      then show ?thesis by simp
    next
      case (stopped f)
      with br e show ?thesis by simp
    next
      case (built contents buffer lines vectors)
      with br e show ?thesis by simp
    qed
  qed
  have returned: "c = 0 \<and>
      (\<exists>contents buffer lines vectors.
         read_entire_file (file_system w) infilename [] = (length contents, contents) \<and>
         contents \<noteq> [] \<and>
         buffer_to_list empty_vector contents = (buffer, lines) \<and>
         items lines \<noteq> [] \<and>
         parse_lines fl prior (count_dimensions buffer (hd (items lines)) 0) buffer (items lines)
           = Inr vectors \<and>
         length vectors = length (items lines) \<and>
         trace w' = trace w @ [Called_fopen infilename, Called_ofstream outfilename] \<and>
         (can_create w outfilename \<longrightarrow>
            outputs w' outfilename =
              Some \<lparr>tree_order = order,
                    dimensions = count_dimensions buffer (hd (items lines)) 0,
                    members = vectors\<rparr>))"
    if r: "?b = Returned c w'" for c w'
  proof (cases "order < 2 \<or> 1000000 < order")
    case True
    from build_rejects [OF True, of fl prior infilename outfilename w] r
    show ?thesis by simp
  next
    case False
    then have br: "?b = build_read fl prior infilename order outfilename w"
      by (simp add: build_accepts)
    show ?thesis
    proof (cases rule: build_read_cases [of w infilename fl prior order outfilename])
      case (cannot_read contents)
      with br r show ?thesis by simp
    next
      case (stopped f)
      with br r show ?thesis by simp
    next
      case (built contents buffer lines vectors)
      from built(5) have len: "length vectors = length (items lines)"
        by (rule parse_lines_length)
      from built(6) br r have c0: "c = 0"
        and w': "w' = (if can_create w outfilename
              then w\<lparr>trace := trace w @ [Called_fopen infilename,
                                         Called_ofstream outfilename],
                     outputs := (outputs w)(outfilename \<mapsto>
                       \<lparr>tree_order = order,
                        dimensions = count_dimensions buffer (hd (items lines)) 0,
                        members = vectors\<rparr>)\<rparr>
              else w\<lparr>trace := trace w @ [Called_fopen infilename,
                                         Called_ofstream outfilename]\<rparr>)"
        by simp_all
      from w' have tr: "trace w' = trace w @ [Called_fopen infilename,
                                               Called_ofstream outfilename]"
        by simp
      from w' have out: "can_create w outfilename \<longrightarrow>
            outputs w' outfilename =
              Some \<lparr>tree_order = order,
                    dimensions = count_dimensions buffer (hd (items lines)) 0,
                    members = vectors\<rparr>"
        by simp
      from c0 built(1-5) len tr out show ?thesis
        by blast
    qed
  qed
  have unread: "\<exists>code after. ?b = Exited code after \<and> outputs after = outputs w \<and>
         (\<exists>new. trace after = trace w @ new \<and> Called_ofstream outfilename \<notin> set new)"
    if u: "unreadable (file_system w) infilename \<and> \<not> short_read (file_system w) infilename"
  proof -
    have "\<exists>code after. ?b = Exited code after"
    proof (cases "order < 2 \<or> 1000000 < order")
      case True
      then show ?thesis
        by (simp add: build_rejects)
    next
      case False
      from u have "read_entire_file (file_system w) infilename [] = (0, [])"
        by (simp add: read_entire_file_no_length)
      then have "\<exists>code after. build_read fl prior infilename order outfilename w = Exited code after"
        by (simp add: build_read_zero)
      with False show ?thesis
        by (simp add: build_accepts)
    qed
    then obtain code after where "?b = Exited code after"
      by blast
    with exited [of code after] show ?thesis
      by blast
  qed
  have short: "?b = Undefined Lines_index_out_of_range"
    if s: "short_read (file_system w) infilename \<and> 2 \<le> order \<and> order \<le> 1000000"
  proof -
    define w1 where "w1 = w\<lparr>trace := trace w @ [Called_fopen infilename]\<rparr>"
    obtain bytes contents where r: "read_entire_file (file_system w) infilename [] = (bytes, contents)"
      by (cases "read_entire_file (file_system w) infilename []")
    with s read_entire_file_short [of "file_system w" infilename "[]"]
    have nz: "bytes \<noteq> 0" and em: "contents = []"
      by simp_all
    have "nonblank_lines (c_str [] 0) = []"
      by (simp add: c_str_def nonblank_lines_def)
    then have i: "items (snd (buffer_to_list empty_vector [])) = []"
      by (simp only: items_Nil_iff)
    from s have "?b = build_read fl prior infilename order outfilename w"
      by (simp add: build_accepts)
    also have "\<dots> = build_index fl prior contents order outfilename w1"
      using r nz unfolding w1_def by (rule build_read_nonzero)
    also have "\<dots> = Undefined Lines_index_out_of_range"
      using i unfolding em
      by (cases rule: build_index_cases [of "[]" fl prior order outfilename w1]) simp_all
    finally show ?thesis .
  qed
  from exited returned unread short show ?thesis
    by blast
qed

text \<open>
  The scenario of the specification: three vectors of two components, tree order 2.
\<close>

lemma build_example:
  "build (\<lambda>x. x) 0 ''vectors.txt'' 2 ''out.txt'' example_world = Returned 0 example_built"
  unfolding example_built_def
  by (simp add: example_simps split_simps loop_simps atof_simps new_object_def new_k_tree_def
        tree_push_back_def numeral_2_eq_2)

lemma long_path_missing: "example_files long_path = None"
proof -
  have "length long_path = 228"
    by (simp add: long_path_def)
  then have ne: "long_path \<noteq> s" if "length s < 228" for s
    using that by auto
  have "long_path \<noteq> ''vectors.txt''" and "long_path \<noteq> ''blank.txt''"
    and "long_path \<noteq> ''empty.txt''" and "long_path \<noteq> ''directory''"
    by (rule ne, simp)+
  then show ?thesis
    by (simp add: example_files_def)
qed

text \<open>
  Claim C9.  No \<open>exit\<close> of \<open>build\<close> comes after the output file is opened, and \<open>build\<close>
  returns only after the whole sequence (\<open>build_all_or_nothing\<close>).  But an unreadable input
  does not always end the process with a status that is not zero.  A directory is
  unreadable, by a short read: \<open>build\<close> does not exit and goes on to \<open>lines[0]\<close> of an
  empty vector.  A missing path of 228 bytes is unreadable: \<open>build\<close> prints the diagnostic
  of 256 bytes and calls \<open>exit(256)\<close>, and the process ends with status 0.
\<close>

theorem C9_build_unreadable_input:
  "unreadable (file_system example_world) ''directory''
   \<and> build (\<lambda>x. x) 0 ''directory'' 2 ''out.txt'' example_world =
       Undefined Lines_index_out_of_range
   \<and> unreadable (file_system example_world) long_path
   \<and> length long_path = 228
   \<and> length (cannot_read_message long_path) = 256
   \<and> build (\<lambda>x. x) 0 long_path 2 ''out.txt'' example_world =
       Exited 0 (example_world\<lparr>trace := [Called_fopen long_path,
                                          Printed (cannot_read_message long_path)]\<rparr>)"
proof -
  have fs: "file_system example_world = example_files" and tr: "trace example_world = []"
    by (simp_all add: example_world_def)
  have 1: "unreadable (file_system example_world) ''directory''"
    by (simp add: unreadable_def example_world_def example_files_def)
  have 2: "build (\<lambda>x. x) 0 ''directory'' 2 ''out.txt'' example_world =
             Undefined Lines_index_out_of_range"
    by (simp add: example_simps split_simps)
  have 3: "unreadable (file_system example_world) long_path"
    by (simp add: unreadable_def fs long_path_missing)
  have 4: "length long_path = 228"
    by (simp add: long_path_def)
  then have 5: "length (cannot_read_message long_path) = 256"
    by (simp add: cannot_read_message_def)
  have "read_entire_file (file_system example_world) long_path [] = (0, [])"
    by (simp add: read_entire_file_def fs long_path_missing)
  then have "build_read (\<lambda>x. x) 0 long_path 2 ''out.txt'' example_world =
           Exited (exit_status (28 + int (length long_path)))
             (example_world\<lparr>trace := trace example_world @ [Called_fopen long_path,
                                      Printed (cannot_read_message long_path)]\<rparr>)"
    by (rule build_read_zero)
  moreover have "build (\<lambda>x. x) 0 long_path 2 ''out.txt'' example_world =
                 build_read (\<lambda>x. x) 0 long_path 2 ''out.txt'' example_world"
    by (simp add: build_accepts)
  ultimately have 6: "build (\<lambda>x. x) 0 long_path 2 ''out.txt'' example_world =
       Exited 0 (example_world\<lparr>trace := [Called_fopen long_path,
                                          Printed (cannot_read_message long_path)]\<rparr>)"
    by (simp add: 4 tr exit_status_def)
  from 1 2 3 4 5 6 show ?thesis
    by blast
qed

text \<open>
  Claim C10.  A file that is not empty and holds nothing but line terminators is read,
  is split into no line at all, and \<open>build\<close> then indexes \<open>lines[0]\<close> in the empty vector.
  More generally the part of \<open>build\<close> that follows the read reaches that index out of
  range exactly when the text has no non-blank line.
\<close>

theorem C10_only_terminators_no_first_line:
  "(read_entire_file (file_system w) infilename [] = (bytes, contents) \<and> bytes \<noteq> 0 \<and>
    contents \<noteq> [] \<and> list_all is_eol contents \<and> 2 \<le> order \<and> order \<le> 1000000 \<longrightarrow>
      items (snd (buffer_to_list empty_vector contents)) = [] \<and>
      build fl prior infilename order outfilename w = Undefined Lines_index_out_of_range)
   \<and> ((build_index fl prior file_text order outfilename w = Undefined Lines_index_out_of_range) =
       (nonblank_lines (c_str file_text 0) = []))"
proof (intro conjI impI)
  assume a: "read_entire_file (file_system w) infilename [] = (bytes, contents) \<and> bytes \<noteq> 0 \<and>
    contents \<noteq> [] \<and> list_all is_eol contents \<and> 2 \<le> order \<and> order \<le> 1000000"
  then have "NUL \<notin> set contents"
    by (auto simp: list_all_iff)
  then have "c_str contents 0 = contents"
    by (rule c_str_no_NUL)
  with a have "nonblank_lines (c_str contents 0) = []"
    by (simp add: nonblank_lines_def fields_all_sep)
  then show i: "items (snd (buffer_to_list empty_vector contents)) = []"
    by (simp only: items_Nil_iff)
  define w1 where "w1 = w\<lparr>trace := trace w @ [Called_fopen infilename]\<rparr>"
  from a have "build fl prior infilename order outfilename w =
                 build_read fl prior infilename order outfilename w"
    by (simp add: build_accepts)
  also have "\<dots> = build_index fl prior contents order outfilename w1"
  proof -
    from a have "read_entire_file (file_system w) infilename [] = (bytes, contents)"
      and "bytes \<noteq> 0"
      by simp_all
    then show ?thesis
      unfolding w1_def by (rule build_read_nonzero)
  qed
  also have "\<dots> = Undefined Lines_index_out_of_range"
    using i by (cases rule: build_index_cases [of contents fl prior order outfilename w1]) simp_all
  finally show "build fl prior infilename order outfilename w = Undefined Lines_index_out_of_range" .
next
  show "(build_index fl prior file_text order outfilename w = Undefined Lines_index_out_of_range) =
       (nonblank_lines (c_str file_text 0) = [])"
  proof (cases rule: build_index_cases [of file_text fl prior order outfilename w])
    case no_line
    then show ?thesis
      by (simp add: items_Nil_iff)
  next
    case (fault f)
    then show ?thesis
      by (simp add: items_Nil_iff)
  next
    case (built buffer lines vectors)
    then have "items (snd (buffer_to_list empty_vector file_text)) \<noteq> []"
      by simp
    then have "nonblank_lines (c_str file_text 0) \<noteq> []"
      by (simp only: items_Nil_iff not_False_eq_True)
    with built(4) show ?thesis
      by simp
  qed
qed

theorem C10_only_terminators_no_first_line_witness:
  "items (snd (buffer_to_list empty_vector ''\<newline>\<newline>'')) = []
   \<and> build (\<lambda>x. x) 0 ''blank.txt'' 2 ''out.txt'' example_world = Undefined Lines_index_out_of_range"
proof -
  have "read_entire_file (file_system example_world) ''blank.txt'' [] = (2, ''\<newline>\<newline>'')"
    by (simp add: example_simps)
  moreover have "list_all is_eol ''\<newline>\<newline>''"
    by (simp add: is_eol_def)
  ultimately show ?thesis
    using C10_only_terminators_no_first_line [of example_world "''blank.txt''" 2 "''\<newline>\<newline>''" 2 "\<lambda>x. x" 0 "''out.txt''"]
    by simp
qed

end
